theory Spec2Isabelle
  imports Main "HOL-Library.Word" "HOL-Library.Sublist"
begin

section \<open>Strings and bytes\<close>

text \<open>
  A JavaScript string is a sequence of UTF-16 code units; it is modelled as the list of
  their values. \<open>lit\<close> turns an ASCII literal of the source into that representation.
  A \<open>Buffer\<close> is a list of bytes.
\<close>

type_synonym jsstring = "nat list"

type_synonym byte = "8 word"

definition lit :: "string \<Rightarrow> jsstring" where
  "lit s = map of_char s"

text \<open>
  \<open>String.prototype.trim\<close> removes, at both ends, the code units that ECMAScript classes
  as WhiteSpace or LineTerminator: TAB, LF, VT, FF, CR, SP, U+00A0, U+1680, U+2000 to
  U+200A, U+2028, U+2029, U+202F, U+205F, U+3000 and U+FEFF.
\<close>

definition is_ws :: "nat \<Rightarrow> bool" where
  "is_ws c = (c \<in> {9, 10, 11, 12, 13, 32, 160, 5760, 8232, 8233, 8239, 8287, 12288, 65279}
              \<or> (8192 \<le> c \<and> c \<le> 8202))"

definition trim :: "jsstring \<Rightarrow> jsstring" where
  "trim s = rev (dropWhile is_ws (rev (dropWhile is_ws s)))"

section \<open>Peer normalisation\<close>

text \<open>
  \<open>ci_prefix l s\<close> strips the literal \<open>l\<close> from the front of \<open>s\<close>, letters compared
  without regard to case, as a regular expression with the \<open>i\<close> flag does on ASCII
  (the literal is given in lower case). \<open>has_scheme\<close> is the test
  \<^verbatim>\<open>/^https?:\/\//i.test(url)\<close>.
\<close>

definition ci_eq :: "nat \<Rightarrow> nat \<Rightarrow> bool" where
  "ci_eq l c = (c = l \<or> (97 \<le> l \<and> l \<le> 122 \<and> c + 32 = l))"

fun ci_prefix :: "jsstring \<Rightarrow> jsstring \<Rightarrow> jsstring option" where
  "ci_prefix [] s = Some s"
| "ci_prefix (l # ls) [] = None"
| "ci_prefix (l # ls) (c # cs) = (if ci_eq l c then ci_prefix ls cs else None)"

definition has_scheme :: "jsstring \<Rightarrow> bool" where
  "has_scheme url =
     (case ci_prefix (lit ''http'') url of
        None \<Rightarrow> False
      | Some r \<Rightarrow>
          (case ci_prefix (lit ''s'') r of
             Some r' \<Rightarrow> prefix (lit ''://'') r' \<or> prefix (lit ''://'') r
           | None \<Rightarrow> prefix (lit ''://'') r))"

text \<open>\<^verbatim>\<open>url.replace(/\/$/, '')\<close>: one slash at the very end is removed, if there is one.\<close>

definition drop_trailing_slash :: "jsstring \<Rightarrow> jsstring" where
  "drop_trailing_slash url = (if url \<noteq> [] \<and> last url = 47 then butlast url else url)"

text \<open>\<open>normalisePeer\<close>; \<open>None\<close> is the source's \<open>null\<close>.\<close>

definition normalisePeer :: "jsstring \<Rightarrow> jsstring option" where
  "normalisePeer p =
     (let url = trim p in
      if url = [] then None
      else let url = (if \<not> has_scheme url then lit ''http://'' @ url else url)
           in Some (drop_trailing_slash url))"

text \<open>
  The peer list of \<open>fetchArweaveChunks\<close>: the built-in seeds, then the caller's peers, then the
  list written into the function, all normalised, the falsy results (\<open>null\<close>, the empty
  string) filtered out, and de-duplicated through a \<open>Set\<close>, which keeps the first occurrence
  of each address in insertion order.
\<close>

definition BUILTIN_PEERS :: "jsstring list" where
  "BUILTIN_PEERS = map lit
     [''https://arweave.net'',
      ''http://38.29.227.39:1984'',
      ''http://38.29.227.41:1984'',
      ''http://165.254.143.21:1984'']"

definition hardcoded_peers :: "jsstring list" where
  "hardcoded_peers = map lit
     [''38.29.227.39:1984'',
      ''38.29.227.41:1984'',
      ''38.29.227.85:1984'',
      ''165.254.143.21:1984'',
      ''168.119.211.20:1984'',
      ''38.29.227.87:1984'',
      ''38.29.227.43:1984'',
      ''38.29.227.89:1984'',
      ''49.12.135.160:1984'',
      ''108.238.244.144:2012'',
      ''38.29.227.93:1984'',
      ''165.254.143.17:1984'',
      ''165.254.143.25:1984'',
      ''112.120.10.191:1986'',
      ''165.254.143.31:1984'',
      ''38.29.227.91:1984'',
      ''165.254.143.27:1984'',
      ''165.254.143.23:1984'',
      ''38.29.227.95:1984'',
      ''112.120.10.191:1984'',
      ''47.205.134.63:1985'',
      ''74.82.0.180:1995'',
      ''165.254.143.33:1984'',
      ''165.254.143.29:1984'',
      ''138.201.218.229:1984'',
      ''112.120.10.191:1985'',
      ''168.119.211.60:1984'',
      ''165.254.143.19:1984'',
      ''154.201.1.130:11099'',
      ''74.82.0.180:1986'',
      ''3.34.96.164:1984'',
      ''74.82.0.180:1988'']"

definition filter_Boolean :: "jsstring option list \<Rightarrow> jsstring list" where
  "filter_Boolean xs =
     concat (map (\<lambda>x. case x of None \<Rightarrow> [] | Some r \<Rightarrow> if r = [] then [] else [r]) xs)"

definition dedupe :: "'a list \<Rightarrow> 'a list" where
  "dedupe xs = fold (\<lambda>x acc. if x \<in> set acc then acc else acc @ [x]) xs []"

definition allPeers :: "jsstring list \<Rightarrow> jsstring list" where
  "allPeers opts_peers =
     dedupe (filter_Boolean (map normalisePeer
       ((BUILTIN_PEERS @ opts_peers) @ hardcoded_peers)))"

section \<open>The network\<close>

text \<open>
  The two GET requests of the chunk fetcher: \<^verbatim>\<open>{peer}/tx/{txid}/offset\<close> and
  \<^verbatim>\<open>{peer}/chunk/{absPos}\<close>. A JSON body is read through three fields only. A numeric
  field is \<open>Undefined\<close> when absent, \<open>Num n\<close> when it holds a value that \<open>BigInt()\<close>
  converts to \<open>n\<close> (the decimal string \<^verbatim>\<open>"999"\<close> for 999) and \<open>NotInteger\<close> when it holds
  a value on which \<open>BigInt()\<close> throws (\<^verbatim>\<open>"abc"\<close>, \<^verbatim>\<open>null\<close>, 1.5). \<open>j_chunk\<close> is \<open>None\<close>
  when \<^verbatim>\<open>typeof json.chunk !== 'string'\<close>, and otherwise the bytes that
  \<open>base64UrlToBuffer\<close> decodes from the string.

  A reply is \<open>Rejected m\<close> when the promise of \<open>axios.get\<close> rejects with an error of
  message \<open>m\<close> (time-out, refused connection, status outside 2xx) and \<open>Data d\<close> otherwise;
  \<open>Data None\<close> is a falsy body. The network is a function of the number of requests
  issued before and of the request, so that a peer may answer the same request
  differently at different times.
\<close>

datatype request = GetOffset jsstring jsstring | GetChunk jsstring int

datatype field = Undefined | Num int | NotInteger

record json =
  j_chunk :: "byte list option"
  j_offset :: field
  j_size :: field

datatype reply = Rejected jsstring | Data "json option"

type_synonym net = "nat \<Rightarrow> request \<Rightarrow> reply"

text \<open>
  The errors thrown by the fetcher, one constructor for each \<^verbatim>\<open>new Error(...)\<close> of the
  source, with the values its message interpolates and its \<open>causes\<close>; \<open>Transport m\<close> is
  the error of a rejected request and \<open>NotBigInt\<close> the one \<open>BigInt()\<close> throws.
\<close>

datatype error =
    Transport jsstring
  | NotBigInt
  | Malformed jsstring
  | OffsetFailed "error list"
  | ChunkMissing
  | AllPeersFailed int "error list"
  | Incomplete int nat

section \<open>Offset lookup\<close>

record tx_offset =
  peer :: jsstring
  offset :: int
  txsize :: int

text \<open>
  \<open>fetchTxOffset\<close>. \<open>offset_try\<close> is one pass through the body of its \<open>try\<close> for the peer
  \<open>p\<close>: \<open>Inr\<close> is the value returned, \<open>Inl\<close> the error pushed on \<open>errors\<close>, either the
  malformed-response error or whatever was caught, the errors of the two \<open>BigInt()\<close>
  conversions included. \<open>fetchTxOffset_loop\<close> is the \<^verbatim>\<open>for (const p of peers)\<close> loop with
  the \<open>errors\<close> array. The result carries the request clock.
\<close>

definition offset_try :: "net \<Rightarrow> nat \<Rightarrow> jsstring \<Rightarrow> jsstring \<Rightarrow> error + tx_offset" where
  "offset_try net t p txid =
     (case net t (GetOffset p txid) of
        Rejected m \<Rightarrow> Inl (Transport m)
      | Data None \<Rightarrow> Inl (Malformed p)
      | Data (Some js) \<Rightarrow>
          if j_offset js \<noteq> Undefined \<and> j_size js \<noteq> Undefined then
            (case j_offset js of
               Num e \<Rightarrow>
                 (case j_size js of
                    Num s \<Rightarrow> Inr \<lparr>peer = p, offset = e, txsize = s\<rparr>
                  | _ \<Rightarrow> Inl NotBigInt)
             | _ \<Rightarrow> Inl NotBigInt)
          else Inl (Malformed p))"

fun fetchTxOffset_loop ::
  "net \<Rightarrow> jsstring \<Rightarrow> jsstring list \<Rightarrow> nat \<Rightarrow> error list \<Rightarrow> (error + tx_offset) \<times> nat" where
  "fetchTxOffset_loop net txid [] t errors = (Inl (OffsetFailed errors), t)"
| "fetchTxOffset_loop net txid (p # ps) t errors =
     (case offset_try net t p txid of
        Inr r \<Rightarrow> (Inr r, Suc t)
      | Inl err \<Rightarrow> fetchTxOffset_loop net txid ps (Suc t) (errors @ [err]))"

definition fetchTxOffset ::
  "net \<Rightarrow> jsstring \<Rightarrow> jsstring list \<Rightarrow> nat \<Rightarrow> (error + tx_offset) \<times> nat" where
  "fetchTxOffset net txid peers t = fetchTxOffset_loop net txid peers t []"

section \<open>Chunk fetch\<close>

record window =
  buf :: "byte list"
  start :: int
  endpos :: int

definition fetchChunkFromPeer :: "net \<Rightarrow> nat \<Rightarrow> jsstring \<Rightarrow> int \<Rightarrow> error + window" where
  "fetchChunkFromPeer net t p absPos =
     (case net t (GetChunk p absPos) of
        Rejected m \<Rightarrow> Inl (Transport m)
      | Data None \<Rightarrow> Inl ChunkMissing
      | Data (Some js) \<Rightarrow>
          (case j_chunk js of
             None \<Rightarrow> Inl ChunkMissing
           | Some b \<Rightarrow>
               (case (if j_offset js \<noteq> Undefined then j_offset js
                      else Num (absPos + int (length b) - 1)) of
                  Num respEnd \<Rightarrow>
                    Inr \<lparr>buf = b, start = respEnd - int (length b) + 1, endpos = respEnd\<rparr>
                | _ \<Rightarrow> Inl NotBigInt)))"

fun fetchChunk_loop ::
  "net \<Rightarrow> nat \<Rightarrow> jsstring list \<Rightarrow> int \<Rightarrow> error list \<Rightarrow> (error + window) \<times> nat" where
  "fetchChunk_loop net t [] absPos errors = (Inl (AllPeersFailed absPos errors), t)"
| "fetchChunk_loop net t (p # ps) absPos errors =
     (case fetchChunkFromPeer net t p absPos of
        Inr w \<Rightarrow> (Inr w, Suc t)
      | Inl err \<Rightarrow> fetchChunk_loop net (Suc t) ps absPos (errors @ [err]))"

definition fetchChunk :: "net \<Rightarrow> nat \<Rightarrow> jsstring list \<Rightarrow> int \<Rightarrow> (error + window) \<times> nat" where
  "fetchChunk net t peers absPos = fetchChunk_loop net t peers absPos []"

section \<open>Assembly\<close>

text \<open>
  \<open>Buffer.prototype.slice(start, end)\<close>: a negative index counts from the end, and both
  are clamped to the buffer.
\<close>

definition js_slice :: "'a list \<Rightarrow> int \<Rightarrow> int \<Rightarrow> 'a list" where
  "js_slice xs s e =
     (let n = int (length xs);
          rs = (if s < 0 then max (n + s) 0 else min s n);
          re = (if e < 0 then max (n + e) 0 else min e n)
      in take (nat (re - rs)) (drop (nat rs) xs))"

text \<open>
  The body of the loop between the fetch and the push. \<open>Number(x)\<close> of a BigInt is taken
  as exact: it is compared with, or clamped to, the length of a buffer, which is below
  \<open>2^53\<close>, and rounding to a double is monotone and exact up to \<open>2^53\<close>.
\<close>

definition sliceStart :: "int \<Rightarrow> int \<Rightarrow> int" where
  "sliceStart start_w nextPos = (if start_w < nextPos then nextPos - start_w else 0)"

definition usable_slice :: "byte list \<Rightarrow> int \<Rightarrow> int \<Rightarrow> int \<Rightarrow> int \<Rightarrow> byte list" where
  "usable_slice b start_w nextPos size_tx bytesAccum =
     (let usable = js_slice b (sliceStart start_w nextPos) (int (length b));
          remaining = size_tx - bytesAccum
      in if int (length usable) > remaining then js_slice usable 0 remaining else usable)"

text \<open>
  The \<^verbatim>\<open>while (bytesAccum < size)\<close> loop. It has no bound of its own, so it is a partial
  function: \<open>None\<close> is a run that never leaves the loop. An error of \<open>fetchChunk\<close>
  propagates. The counters \<open>chunkCount\<close> and \<open>estTotalChunks\<close> feed log lines only and are
  left out.
\<close>

partial_function (option) assemble_loop ::
  "net \<Rightarrow> jsstring list \<Rightarrow> int \<Rightarrow> nat \<Rightarrow> byte list list \<Rightarrow> int \<Rightarrow> int
     \<Rightarrow> (error + byte list list) option" where
  "assemble_loop net peers size_tx t buffers bytesAccum nextPos =
     (if bytesAccum < size_tx then
        (case fetchChunk net t peers nextPos of
           (Inl err, t') \<Rightarrow> Some (Inl err)
         | (Inr w, t') \<Rightarrow>
             (let usable = usable_slice (buf w) (start w) nextPos size_tx bytesAccum;
                  buffers' = buffers @ [usable];
                  bytesAccum' = bytesAccum + int (length usable)
              in if bytesAccum' \<ge> size_tx then Some (Inr buffers')
                 else assemble_loop net peers size_tx t' buffers' bytesAccum'
                        (start w + int (length (buf w)))))
      else Some (Inr buffers))"

declare assemble_loop.simps [code]

text \<open>
  \<open>fetchArweaveChunks\<close>. The file system is a map from file names to contents;
  \<open>writeFileSync\<close> is taken to succeed, and \<open>path.resolve\<close> to return the name it is given.
  \<open>outfile_name\<close> is \<^verbatim>\<open>opts.outfile || `${opts.txid}.bin`\<close>, and \<open>write_outfile\<close> the part of
  the function after the loop: the concatenation, the comparison of its length with
  \<open>size\<close>, and the write.
\<close>

record opts =
  txid :: jsstring
  outfile :: "jsstring option"
  peers :: "jsstring list"

record fetched =
  res_outfile :: jsstring
  bytes :: nat

type_synonym files = "jsstring \<rightharpoonup> byte list"

definition outfile_name :: "opts \<Rightarrow> jsstring" where
  "outfile_name os =
     (case outfile os of
        None \<Rightarrow> txid os @ lit ''.bin''
      | Some f \<Rightarrow> if f = [] then txid os @ lit ''.bin'' else f)"

definition write_outfile ::
  "opts \<Rightarrow> files \<Rightarrow> int \<Rightarrow> (error + byte list list) option \<Rightarrow> ((error + fetched) \<times> files) option" where
  "write_outfile os fs size_tx looped =
     (case looped of
        None \<Rightarrow> None
      | Some (Inl err) \<Rightarrow> Some (Inl err, fs)
      | Some (Inr buffers) \<Rightarrow>
          (let outBuf = concat buffers in
           if int (length outBuf) \<noteq> size_tx
           then Some (Inl (Incomplete size_tx (length outBuf)), fs)
           else Some (Inr \<lparr>res_outfile = outfile_name os, bytes = length outBuf\<rparr>,
                      fs(outfile_name os \<mapsto> outBuf))))"

definition fetchArweaveChunks :: "net \<Rightarrow> opts \<Rightarrow> files \<Rightarrow> ((error + fetched) \<times> files) option" where
  "fetchArweaveChunks net os fs =
     (case fetchTxOffset net (txid os) (allPeers (peers os)) 0 of
        (Inl err, t) \<Rightarrow> Some (Inl err, fs)
      | (Inr r, t) \<Rightarrow>
          (let endOffset = offset r;
               size_tx = txsize r;
               startOffset = endOffset - size_tx + 1
           in write_outfile os fs size_tx
                (assemble_loop net (allPeers (peers os)) size_tx t [] 0 startOffset)))"


section \<open>Chunk upload\<close>

text \<open>
  What \<open>reuploadChunks\<close> meets: whether the data file exists, whether the transaction and
  its uploader can be obtained, the number of chunks, the result of \<open>validatePath\<close> on the
  proof of chunk \<open>i\<close> (a function of the file and of the transaction, both fixed during the
  run; a call that throws is handled like one that returns false), and the outcome of the
  POST of chunk \<open>i\<close> made after \<open>attempt\<close> earlier failures on that chunk.
\<close>

datatype post_reply = NetworkError | Status int

record uploader =
  data_exists :: bool
  tx_available :: bool
  totalChunks :: nat
  validatePath :: "nat \<Rightarrow> bool"
  post :: "nat \<Rightarrow> nat \<Rightarrow> post_reply"

definition MAX_RETRIES_PER_CHUNK :: nat where
  "MAX_RETRIES_PER_CHUNK = 5"

definition RETRY_DELAY_MS_BASE :: nat where
  "RETRY_DELAY_MS_BASE = 750"

text \<open>The \<open>.catch\<close> on the POST turns a network error into a response of status -1.\<close>

definition resp_status :: "post_reply \<Rightarrow> int" where
  "resp_status r = (case r of NetworkError \<Rightarrow> - 1 | Status s \<Rightarrow> s)"

text \<open>
  The state of a run: the two variables \<open>successCount\<close> and \<open>failedChunks\<close>, and the effects,
  every \<open>sleep(delay)\<close> in order and the number of POSTs made.
\<close>

record upload_state =
  successCount :: nat
  failedChunks :: "nat list"
  slept :: "nat list"
  posted :: nat

datatype upload_error =
    FileNotFound
  | TxUnavailable
  | UnableToValidate nat
  | UploadFailedStatus nat int
  | FailedToUploadAll

text \<open>
  The body of the \<open>try\<close> for chunk \<open>i\<close>: \<open>Inr\<close> is the \<open>break\<close> after a success, \<open>Inl\<close> the
  error thrown into the \<open>catch\<close>.
\<close>

definition try_chunk ::
  "uploader \<Rightarrow> nat \<Rightarrow> nat \<Rightarrow> upload_state \<Rightarrow> (upload_error + unit) \<times> upload_state" where
  "try_chunk u i attempt st =
     (if \<not> validatePath u i then (Inl (UnableToValidate i), st)
      else
        (let resp = post u i attempt;
             st1 = st\<lparr>posted := Suc (posted st)\<rparr>
         in if resp_status resp = 200 \<or> resp_status resp = 208
            then (Inr (), st1\<lparr>successCount := Suc (successCount st1)\<rparr>)
            else (Inl (UploadFailedStatus i (resp_status resp)), st1)))"

text \<open>The \<^verbatim>\<open>while (true)\<close> loop of one chunk, with its \<open>catch\<close>.\<close>

function chunk_loop :: "uploader \<Rightarrow> nat \<Rightarrow> nat \<Rightarrow> upload_state \<Rightarrow> upload_state" where
  "chunk_loop u i attempt st =
     (case try_chunk u i attempt st of
        (Inr _, st1) \<Rightarrow> st1
      | (Inl err, st1) \<Rightarrow>
          (let attempt' = attempt + 1 in
           if attempt' > MAX_RETRIES_PER_CHUNK
           then st1\<lparr>failedChunks := failedChunks st1 @ [i + 1]\<rparr>
           else (let delay = RETRY_DELAY_MS_BASE * attempt'
                 in chunk_loop u i attempt' (st1\<lparr>slept := slept st1 @ [delay]\<rparr>))))"
  by pat_completeness auto
termination
  by (relation "measure (\<lambda>(u, i, attempt, st). Suc MAX_RETRIES_PER_CHUNK - attempt)") auto

declare chunk_loop.simps [simp del]

text \<open>The \<^verbatim>\<open>for (let i = 0; i < totalChunks; i++)\<close> loop.\<close>

function chunks_loop :: "uploader \<Rightarrow> nat \<Rightarrow> upload_state \<Rightarrow> upload_state" where
  "chunks_loop u i st =
     (if i < totalChunks u then chunks_loop u (i + 1) (chunk_loop u i 0 st) else st)"
  by pat_completeness auto
termination
  by (relation "measure (\<lambda>(u, i, st). totalChunks u - i)") auto

declare chunks_loop.simps [simp del]

definition reuploadChunks :: "uploader \<Rightarrow> (upload_error + unit) \<times> upload_state" where
  "reuploadChunks u =
     (let st0 = \<lparr>successCount = 0, failedChunks = [], slept = [], posted = 0\<rparr> in
      if \<not> data_exists u then (Inl FileNotFound, st0)
      else if \<not> tx_available u then (Inl TxUnavailable, st0)
      else
        (let st = chunks_loop u 0 st0 in
         if successCount st = totalChunks u then (Inr (), st)
         else (Inl FailedToUploadAll, st)))"

section \<open>Notions used in the statements\<close>

text \<open>
  The bytes of the network's address space are a function \<open>weave\<close> of the absolute
  position; \<open>payload weave a n\<close> is the run of \<open>n\<close> bytes from position \<open>a\<close>.
\<close>

definition payload :: "(int \<Rightarrow> byte) \<Rightarrow> int \<Rightarrow> nat \<Rightarrow> byte list" where
  "payload weave a n = map (\<lambda>k. weave (a + int k)) [0..<n]"

text \<open>
  Three properties of a network, each over every window that \<open>fetchChunkFromPeer\<close> can
  return for a request at position \<open>pos\<close>: the bytes are those of the weave at the
  window's own range; the window contains \<open>pos\<close>; the window is not empty and does not end
  before \<open>pos\<close>.
\<close>

definition honest :: "(int \<Rightarrow> byte) \<Rightarrow> net \<Rightarrow> bool" where
  "honest weave net =
     (\<forall>t p pos w. fetchChunkFromPeer net t p pos = Inr w \<longrightarrow>
        buf w = payload weave (start w) (length (buf w)))"

definition covering :: "net \<Rightarrow> bool" where
  "covering net =
     (\<forall>t p pos w. fetchChunkFromPeer net t p pos = Inr w \<longrightarrow>
        start w \<le> pos \<and> pos < start w + int (length (buf w)))"

definition advancing :: "net \<Rightarrow> bool" where
  "advancing net =
     (\<forall>t p pos w. fetchChunkFromPeer net t p pos = Inr w \<longrightarrow>
        buf w \<noteq> [] \<and> pos \<le> endpos w)"

text \<open>What a run of the loop from a given state returns, when it returns.\<close>

definition loop_post ::
  "(int \<Rightarrow> byte) \<Rightarrow> net \<Rightarrow> int \<Rightarrow> byte list list \<Rightarrow> int \<Rightarrow> int \<Rightarrow> error + byte list list \<Rightarrow> bool" where
  "loop_post weave net size_tx buffers acc pos r =
     (case r of
        Inl e \<Rightarrow> \<exists>q errs. e = AllPeersFailed q errs
      | Inr bufs \<Rightarrow>
          \<exists>new. bufs = buffers @ new \<and> [] \<notin> set new \<and>
            int (length (concat new)) = max 0 (size_tx - acc) \<and>
            (covering net \<longrightarrow> honest weave net \<longrightarrow>
               concat new = payload weave pos (nat (size_tx - acc))))"

text \<open>
  The answers the peers of a list give to the offset lookup when asked in list order, each
  at its own tick of the request clock.
\<close>

definition probes :: "net \<Rightarrow> jsstring \<Rightarrow> jsstring list \<Rightarrow> nat \<Rightarrow> (error + tx_offset) list" where
  "probes net tx ps t = map (\<lambda>(k, p). offset_try net k p tx) (enumerate t ps)"

text \<open>
  Upload: try number \<open>k\<close> of chunk \<open>i\<close> is accepted when the proof validates and the POST
  answers 200 or 208; the chunk is accepted when one of the tries \<open>0, \<dots>, 5\<close> is. The delays
  slept from try \<open>a\<close> on, before each of the next \<open>n\<close> tries.
\<close>

definition accepted :: "uploader \<Rightarrow> nat \<Rightarrow> nat \<Rightarrow> bool" where
  "accepted u i k =
     (validatePath u i \<and> (resp_status (post u i k) = 200 \<or> resp_status (post u i k) = 208))"

definition chunk_accepted :: "uploader \<Rightarrow> nat \<Rightarrow> bool" where
  "chunk_accepted u i = (\<exists>k \<in> {0..MAX_RETRIES_PER_CHUNK}. accepted u i k)"

definition delays :: "nat \<Rightarrow> nat \<Rightarrow> nat list" where
  "delays a n = map (\<lambda>k. RETRY_DELAY_MS_BASE * k) [Suc a ..< Suc (a + n)]"

section \<open>Example inputs\<close>

text \<open>
  A weave whose byte at position \<open>i\<close> is \<open>i mod 256\<close>, and three networks over it: one that
  serves chunks of four bytes aligned at multiples of four, one that answers a request at
  \<open>pos\<close> with the two bytes at \<open>pos + 2\<close> and \<open>pos + 3\<close>, and one that answers with a chunk
  of one byte whose end offset is \<open>pos - 1\<close>.
\<close>

definition weave0 :: "int \<Rightarrow> byte" where
  "weave0 i = of_int i"

definition net_aligned :: net where
  "net_aligned t rq =
     (case rq of
        GetOffset p x \<Rightarrow> Data (Some \<lparr>j_chunk = None, j_offset = Num 7, j_size = Num 6\<rparr>)
      | GetChunk p pos \<Rightarrow>
          Data (Some \<lparr>j_chunk = Some (payload weave0 (4 * (pos div 4)) 4),
                      j_offset = Num (4 * (pos div 4) + 3), j_size = Undefined\<rparr>))"

definition net_gap :: net where
  "net_gap t rq =
     (case rq of
        GetOffset p x \<Rightarrow> Data (Some \<lparr>j_chunk = None, j_offset = Num 3, j_size = Num 4\<rparr>)
      | GetChunk p pos \<Rightarrow>
          Data (Some \<lparr>j_chunk = Some (payload weave0 (pos + 2) 2),
                      j_offset = Num (pos + 3), j_size = Undefined\<rparr>))"

definition net_behind :: net where
  "net_behind t rq =
     (case rq of
        GetOffset p x \<Rightarrow> Data (Some \<lparr>j_chunk = None, j_offset = Num 0, j_size = Num 1\<rparr>)
      | GetChunk p pos \<Rightarrow>
          Data (Some \<lparr>j_chunk = Some [0], j_offset = Num (pos - 1), j_size = Undefined\<rparr>))"

text \<open>
  Four chunks of which the one at index 2 is always answered with status 500, and a
  single chunk whose proof does not validate.
\<close>

definition u4 :: uploader where
  "u4 = \<lparr>data_exists = True, tx_available = True, totalChunks = 4,
          validatePath = (\<lambda>i. True),
          post = (\<lambda>i k. if i = 2 then Status 500 else if i = 1 then Status 208 else Status 200)\<rparr>"

definition u_invalid :: uploader where
  "u_invalid = \<lparr>data_exists = True, tx_available = True, totalChunks = 1,
          validatePath = (\<lambda>i. False),
          post = (\<lambda>i k. Status 200)\<rparr>"

text \<open>The state in which \<open>reuploadChunks\<close> starts.\<close>

definition st0 :: upload_state where
  "st0 = \<lparr>successCount = 0, failedChunks = [], slept = [], posted = 0\<rparr>"

text \<open>
  Three more networks: one where peer \<open>a\<close> answers the offset lookup with an \<open>offset\<close> that is
  not an integer, peer \<open>b\<close> answers it well and every other request is rejected; one that
  answers the lookup with offset 999 and size 1000 and every chunk request with three
  bytes and no \<open>offset\<close> field; and one whose lookup reports the size -1. The options
  \<open>os0\<close> name the transaction \<open>tx\<close> and leave the rest to its defaults.
\<close>

definition net_two :: net where
  "net_two t rq =
     (case rq of
        GetOffset p x \<Rightarrow>
          if p = lit ''a'' then Data (Some \<lparr>j_chunk = None, j_offset = NotInteger, j_size = Num 1000\<rparr>)
          else if p = lit ''b'' then Data (Some \<lparr>j_chunk = None, j_offset = Num 999, j_size = Num 1000\<rparr>)
          else Rejected (lit ''timeout'')
      | GetChunk p pos \<Rightarrow> Rejected (lit ''timeout''))"

definition net_plain :: net where
  "net_plain t rq =
     (case rq of
        GetOffset p x \<Rightarrow> Data (Some \<lparr>j_chunk = None, j_offset = Num 999, j_size = Num 1000\<rparr>)
      | GetChunk p pos \<Rightarrow> Data (Some \<lparr>j_chunk = Some [1, 2, 3], j_offset = Undefined, j_size = Undefined\<rparr>))"

definition net_negative :: net where
  "net_negative t rq =
     (case rq of
        GetOffset p x \<Rightarrow> Data (Some \<lparr>j_chunk = None, j_offset = Num 0, j_size = Num (- 1)\<rparr>)
      | GetChunk p pos \<Rightarrow> Rejected (lit ''timeout''))"

definition os0 :: opts where
  "os0 = \<lparr>txid = lit ''tx'', outfile = None, peers = []\<rparr>"

section \<open>Peer normalisation: properties\<close>

lemma last_dropWhile_ne: "dropWhile P xs \<noteq> [] \<Longrightarrow> last (dropWhile P xs) = last xs"
  by (induction xs) (auto split: if_splits)

lemma trim_ends:
  assumes "trim p \<noteq> []"
  shows "\<not> is_ws (hd (trim p))" and "\<not> is_ws (last (trim p))"
proof -
  let ?q = "dropWhile is_ws p"
  let ?d = "dropWhile is_ws (rev ?q)"
  have d: "?d \<noteq> []" using assms by (simp add: trim_def)
  then have "rev ?q \<noteq> []" by (metis dropWhile.simps(1))
  then have q: "?q \<noteq> []" by simp
  have "last (trim p) = hd ?d" using d by (simp add: trim_def last_rev)
  then show "\<not> is_ws (last (trim p))" using d hd_dropWhile by metis
  have "hd (trim p) = last ?d" using d by (simp add: trim_def hd_rev)
  also have "\<dots> = last (rev ?q)" using d by (rule last_dropWhile_ne)
  also have "\<dots> = hd ?q" using q by (simp add: last_rev)
  finally show "\<not> is_ws (hd (trim p))" using q hd_dropWhile by metis
qed

lemma trim_fixed:
  assumes "s \<noteq> []" "\<not> is_ws (hd s)" "\<not> is_ws (last s)"
  shows "trim s = s"
proof -
  have 1: "dropWhile is_ws s = s" using assms by (cases s) auto
  have "rev s \<noteq> []" "\<not> is_ws (hd (rev s))" using assms by (simp_all add: hd_rev)
  then have 2: "dropWhile is_ws (rev s) = rev s" by (cases "rev s") auto
  show ?thesis by (simp add: trim_def 1 2)
qed

lemma ci_prefix_split:
  "ci_prefix l s = Some r \<Longrightarrow> \<exists>pre. s = pre @ r \<and> list_all2 ci_eq l pre"
proof (induction l s rule: ci_prefix.induct)
  case (3 l ls c cs)
  then have "ci_eq l c" and "ci_prefix ls cs = Some r" by (auto split: if_splits)
  with 3 obtain pre where "cs = pre @ r" "list_all2 ci_eq ls pre" by auto
  then have "c # cs = (c # pre) @ r \<and> list_all2 ci_eq (l # ls) (c # pre)"
    using \<open>ci_eq l c\<close> by simp
  then show ?case by blast
qed auto

lemma ci_prefix_append:
  "list_all2 ci_eq l pre \<Longrightarrow> ci_prefix l (pre @ r) = Some r"
  by (induction l pre rule: list_all2_induct) auto

lemma has_scheme_decomp:
  assumes "has_scheme u"
  shows "\<exists>pre rest. u = pre @ lit ''://'' @ rest \<and> pre \<noteq> [] \<and> \<not> is_ws (hd pre)
           \<and> (\<forall>rest'. has_scheme (pre @ lit ''://'' @ rest'))"
proof -
  from assms obtain r where r: "ci_prefix (lit ''http'') u = Some r"
    by (auto simp: has_scheme_def split: option.splits)
  then obtain pre0 where u: "u = pre0 @ r" and p0: "list_all2 ci_eq (lit ''http'') pre0"
    using ci_prefix_split by blast
  from p0 have ne: "pre0 \<noteq> []" and hd0: "\<not> is_ws (hd pre0)"
    by (auto simp: lit_def list_all2_Cons1 ci_eq_def is_ws_def)
  have h0: "ci_prefix (lit ''http'') (pre0 @ x) = Some x" for x
    using p0 by (rule ci_prefix_append)
  show ?thesis
  proof (cases "prefix (lit ''://'') r")
    case True
    then obtain rest where rest: "r = lit ''://'' @ rest" by (auto simp: prefix_def)
    have "has_scheme (pre0 @ lit ''://'' @ rest')" for rest'
      by (simp add: has_scheme_def h0) (simp add: lit_def ci_eq_def)
    with u rest ne hd0 show ?thesis by blast
  next
    case False
    with assms r obtain r' where r': "ci_prefix (lit ''s'') r = Some r'"
      and pr: "prefix (lit ''://'') r'"
      by (auto simp: has_scheme_def split: option.splits)
    then obtain pre1 where r1: "r = pre1 @ r'" and p1: "list_all2 ci_eq (lit ''s'') pre1"
      using ci_prefix_split by blast
    from pr obtain rest where rest: "r' = lit ''://'' @ rest" by (auto simp: prefix_def)
    have h1: "ci_prefix (lit ''s'') (pre1 @ x) = Some x" for x
      using p1 by (rule ci_prefix_append)
    have "has_scheme ((pre0 @ pre1) @ lit ''://'' @ rest')" for rest'
      by (simp add: has_scheme_def h0 h1)
    moreover have "u = (pre0 @ pre1) @ lit ''://'' @ rest" using u r1 rest by simp
    moreover have "pre0 @ pre1 \<noteq> []" "\<not> is_ws (hd (pre0 @ pre1))" using ne hd0 by simp_all
    ultimately show ?thesis by blast
  qed
qed

lemma has_scheme_http: "has_scheme (lit ''http://'' @ x)"
  by (simp add: has_scheme_def lit_def ci_eq_def)

lemma normalisePeer_None_iff: "normalisePeer p = None \<longleftrightarrow> trim p = []"
  by (simp add: normalisePeer_def Let_def)

lemma normalise_tidy:
  assumes t': "drop_trailing_slash (trim p) \<noteq> []"
    and l47: "last (drop_trailing_slash (trim p)) \<noteq> 47"
    and lws: "\<not> is_ws (last (drop_trailing_slash (trim p)))"
  shows "\<exists>r. normalisePeer p = Some r \<and>
           r = (if has_scheme (trim p) then drop_trailing_slash (trim p)
                else lit ''http://'' @ drop_trailing_slash (trim p)) \<and>
           has_scheme r \<and> last r \<noteq> 47 \<and> normalisePeer r = Some r"
proof -
  let ?t = "trim p"
  let ?t' = "drop_trailing_slash ?t"
  let ?u = "if \<not> has_scheme ?t then lit ''http://'' @ ?t else ?t"
  let ?r = "drop_trailing_slash ?u"
  have t: "?t \<noteq> []" using t' by (auto simp: drop_trailing_slash_def)
  then have np: "normalisePeer p = Some ?r" by (simp add: normalisePeer_def Let_def)
  have r_eq: "?r = (if has_scheme ?t then ?t' else lit ''http://'' @ ?t')"
    using t by (simp add: drop_trailing_slash_def butlast_append)
  have last_r: "last ?r = last ?t'" using t' by (simp add: r_eq)
  have ne_r: "?r \<noteq> []" using t' by (simp add: r_eq)
  have sch: "has_scheme ?r"
  proof (cases "has_scheme ?t")
    case False
    then show ?thesis using r_eq by (simp add: has_scheme_http)
  next
    case True
    show ?thesis
    proof (cases "last ?t = 47")
      case False
      with True show ?thesis by (simp add: drop_trailing_slash_def)
    next
      case slash: True
      from has_scheme_decomp [OF True] obtain pre rest where
        d: "?t = pre @ lit ''://'' @ rest" and
        all: "\<forall>rest'. has_scheme (pre @ lit ''://'' @ rest')" by blast
      have bl: "?t' = butlast ?t" using t slash by (simp add: drop_trailing_slash_def)
      have "rest \<noteq> []"
      proof
        assume "rest = []"
        then have "?t' = pre @ lit '':/''" using d bl by (simp add: lit_def butlast_append)
        then show False using l47 by (simp add: lit_def)
      qed
      then have "?t' = pre @ lit ''://'' @ butlast rest"
        using d bl by (simp add: butlast_append lit_def)
      with all True show ?thesis by (simp add: r_eq)
    qed
  qed
  obtain pre rest where "?r = pre @ lit ''://'' @ rest" "pre \<noteq> []" "\<not> is_ws (hd pre)"
    using has_scheme_decomp [OF sch] by blast
  then have hd_r: "\<not> is_ws (hd ?r)" by simp
  have "trim ?r = ?r" using ne_r hd_r lws last_r by (simp add: trim_fixed)
  then have "normalisePeer ?r = Some ?r"
    using ne_r sch l47 last_r by (simp add: normalisePeer_def Let_def drop_trailing_slash_def)
  with np r_eq sch l47 last_r show ?thesis by (intro exI [of _ ?r]) (simp only: simp_thms)
qed

lemmas peer_eval = normalisePeer_def lit_def trim_def is_ws_def has_scheme_def ci_eq_def
  drop_trailing_slash_def

text \<open>
  Claim C10, as amended. \<open>normalisePeer\<close> returns \<open>null\<close> exactly when the trimmed input is
  empty. It drops one trailing slash only, so the rest of the claim holds for an input
  whose trimmed form, less one trailing slash, is not empty and ends neither in a slash
  nor in white space: the result is then the trimmed input less that slash, with
  \<open>http://\<close> put in front of it unless it begins with \<open>http://\<close> or \<open>https://\<close> (compared
  without regard to case, as the source's regular expression does); it begins with one of
  the two schemes, has no trailing slash, and is returned unchanged when normalised again.
\<close>

theorem normalisePeer_fixed_point:
  "(normalisePeer p = None \<longleftrightarrow> trim p = []) \<and>
   (drop_trailing_slash (trim p) \<noteq> [] \<and> last (drop_trailing_slash (trim p)) \<noteq> 47
      \<and> \<not> is_ws (last (drop_trailing_slash (trim p))) \<longrightarrow>
    (\<exists>r. normalisePeer p = Some r \<and>
         r = (if has_scheme (trim p) then drop_trailing_slash (trim p)
              else lit ''http://'' @ drop_trailing_slash (trim p)) \<and>
         has_scheme r \<and> last r \<noteq> 47 \<and> normalisePeer r = Some r))"
proof -
  have "\<exists>r. normalisePeer p = Some r \<and>
         r = (if has_scheme (trim p) then drop_trailing_slash (trim p)
              else lit ''http://'' @ drop_trailing_slash (trim p)) \<and>
         has_scheme r \<and> last r \<noteq> 47 \<and> normalisePeer r = Some r"
    if "drop_trailing_slash (trim p) \<noteq> []" "last (drop_trailing_slash (trim p)) \<noteq> 47"
      "\<not> is_ws (last (drop_trailing_slash (trim p)))"
    using that by (rule normalise_tidy)
  with normalisePeer_None_iff [of p] show ?thesis by blast
qed

theorem normalisePeer_fixed_point_witness:
  "normalisePeer (lit '' Arweave.net/ '') = Some (lit ''http://Arweave.net'') \<and>
   has_scheme (lit ''http://Arweave.net'') \<and>
   normalisePeer (lit ''http://Arweave.net'') = Some (lit ''http://Arweave.net'') \<and>
   normalisePeer (lit ''  '') = None"
proof -
  have t: "trim (lit '' Arweave.net/ '') = lit ''Arweave.net/''"
    by (simp add: peer_eval)
  have d: "drop_trailing_slash (lit ''Arweave.net/'') = lit ''Arweave.net''"
    by (simp add: peer_eval)
  have h: "drop_trailing_slash (trim (lit '' Arweave.net/ '')) \<noteq> [] \<and>
      last (drop_trailing_slash (trim (lit '' Arweave.net/ ''))) \<noteq> 47 \<and>
      \<not> is_ws (last (drop_trailing_slash (trim (lit '' Arweave.net/ ''))))"
    unfolding t d by (simp add: lit_def is_ws_def)
  have e: "normalisePeer (lit '' Arweave.net/ '') = Some (lit ''http://Arweave.net'')"
    by (simp add: peer_eval)
  have z: "trim (lit ''  '') = []" by (simp add: peer_eval)
  from normalisePeer_fixed_point [of "lit '' Arweave.net/ ''"] h e
  have "has_scheme (lit ''http://Arweave.net'') \<and>
        normalisePeer (lit ''http://Arweave.net'') = Some (lit ''http://Arweave.net'')"
    by auto
  moreover from normalisePeer_fixed_point [of "lit ''  ''"] z
  have "normalisePeer (lit ''  '') = None" by blast
  ultimately show ?thesis using e by simp
qed

text \<open>
  Claim C10 as stated fails: the input \<open>a//\<close> gives \<open>http://a/\<close>, which ends in a slash and
  normalises further to \<open>http://a\<close>; the input \<open>http://\<close> gives \<open>http:/\<close>, which does not
  begin with a scheme; and the input \<open>HTTP://x\<close> is returned as it is, its scheme in upper
  case.
\<close>

theorem normalisePeer_counterexample:
  "normalisePeer (lit ''a//'') = Some (lit ''http://a/'') \<and>
   last (lit ''http://a/'') = 47 \<and>
   normalisePeer (lit ''http://a/'') = Some (lit ''http://a'') \<and>
   lit ''http://a/'' \<noteq> lit ''http://a'' \<and>
   normalisePeer (lit ''http://'') = Some (lit ''http:/'') \<and>
   \<not> has_scheme (lit ''http:/'') \<and>
   normalisePeer (lit ''HTTP://x'') = Some (lit ''HTTP://x'') \<and>
   \<not> prefix (lit ''http://'') (lit ''HTTP://x'') \<and>
   \<not> prefix (lit ''https://'') (lit ''HTTP://x'')"
  by (simp add: peer_eval)

lemma dedupe_fold_prefix:
  "\<exists>ys. fold (\<lambda>x acc. if x \<in> set acc then acc else acc @ [x]) xs acc = acc @ ys"
proof (induction xs arbitrary: acc)
  case Nil
  show ?case by simp
next
  case (Cons x xs)
  show ?case
  proof (cases "x \<in> set acc")
    case True
    then show ?thesis using Cons [of acc] by simp
  next
    case False
    from Cons [of "acc @ [x]"] obtain ys where
      "fold (\<lambda>x acc. if x \<in> set acc then acc else acc @ [x]) xs (acc @ [x]) = (acc @ [x]) @ ys"
      by blast
    then show ?thesis using False by simp
  qed
qed

lemma allPeers_Cons: "\<exists>rest. allPeers ps = lit ''https://arweave.net'' # rest"
proof -
  have n: "normalisePeer (lit ''https://arweave.net'') = Some (lit ''https://arweave.net'')"
    by (simp add: peer_eval)
  have "\<exists>xs. filter_Boolean (map normalisePeer ((BUILTIN_PEERS @ ps) @ hardcoded_peers))
          = lit ''https://arweave.net'' # xs"
    by (simp add: BUILTIN_PEERS_def filter_Boolean_def n) (simp add: lit_def)
  then obtain xs where xs: "filter_Boolean (map normalisePeer ((BUILTIN_PEERS @ ps) @ hardcoded_peers))
          = lit ''https://arweave.net'' # xs" by blast
  from dedupe_fold_prefix [of xs "[lit ''https://arweave.net'']"]
  show ?thesis unfolding allPeers_def dedupe_def xs by simp
qed

section \<open>Offset lookup: properties\<close>

lemma offset_try_Inr:
  "offset_try net t p tx = Inr r \<longleftrightarrow>
     (\<exists>js e s. net t (GetOffset p tx) = Data (Some js) \<and> j_offset js = Num e \<and> j_size js = Num s
        \<and> r = \<lparr>peer = p, offset = e, txsize = s\<rparr>)"
  by (auto simp: offset_try_def split: reply.splits option.splits field.splits)

lemma probes_Cons: "probes net tx (p # ps) t = offset_try net t p tx # probes net tx ps (Suc t)"
  by (simp add: probes_def)

lemma probes_Nil: "probes net tx [] t = []"
  by (simp add: probes_def)

lemma fetchTxOffset_loop_skip:
  "\<forall>x \<in> set (probes net tx pre t). isl x \<Longrightarrow>
   fetchTxOffset_loop net tx (pre @ rest) t errs =
     fetchTxOffset_loop net tx rest (t + length pre) (errs @ map projl (probes net tx pre t))"
proof (induction pre arbitrary: t errs)
  case Nil
  show ?case by (simp add: probes_Nil)
next
  case (Cons p pre)
  then obtain e where e: "offset_try net t p tx = Inl e"
    by (cases "offset_try net t p tx") (auto simp: probes_Cons)
  from Cons.prems have "\<forall>x \<in> set (probes net tx pre (Suc t)). isl x" by (simp add: probes_Cons)
  from Cons.IH [OF this, of "errs @ [e]"] show ?case by (simp add: e probes_Cons)
qed

lemma fetchTxOffset_loop_isl:
  "isl (fst (fetchTxOffset_loop net tx ps t errs)) \<longleftrightarrow> (\<forall>x \<in> set (probes net tx ps t). isl x)"
proof (induction ps arbitrary: t errs)
  case Nil
  show ?case by (simp add: probes_Nil)
next
  case (Cons p ps)
  show ?case by (cases "offset_try net t p tx") (simp_all add: probes_Cons Cons.IH)
qed

lemma try_two_a: "offset_try net_two t (lit ''a'') tx = Inl NotBigInt"
  by (simp add: offset_try_def net_two_def)

lemma try_two_b:
  "offset_try net_two t (lit ''b'') tx = Inr \<lparr>peer = lit ''b'', offset = 999, txsize = 1000\<rparr>"
  by (simp add: offset_try_def net_two_def lit_def)

lemma try_two_c: "offset_try net_two t (lit ''c'') tx = Inl (Transport (lit ''timeout''))"
  by (simp add: offset_try_def net_two_def lit_def)

text \<open>
  Claim C8, as amended. \<open>fetchTxOffset\<close> asks the peers in list order, one request each. A
  peer succeeds exactly when its response holds an \<open>offset\<close> and a \<open>size\<close> that both convert
  to integers; a response that lacks either field, or holds a value that \<open>BigInt()\<close>
  rejects, is that peer's failure. The call returns the result of the first peer that
  succeeds, after as many requests as peers were asked; it fails exactly when every peer
  fails, and the error then carries the errors of all peers, one each, in list order.
\<close>

theorem resolve_offset:
  "(offset_try net t p tx = Inr r \<longleftrightarrow>
      (\<exists>js e s. net t (GetOffset p tx) = Data (Some js) \<and> j_offset js = Num e \<and> j_size js = Num s
         \<and> r = \<lparr>peer = p, offset = e, txsize = s\<rparr>)) \<and>
   ((\<forall>x \<in> set (probes net tx pre t). isl x) \<and> offset_try net (t + length pre) p tx = Inr r \<longrightarrow>
      fetchTxOffset net tx (pre @ p # rest) t = (Inr r, Suc (t + length pre))) \<and>
   ((\<forall>x \<in> set (probes net tx ps t). isl x) \<longrightarrow>
      fetchTxOffset net tx ps t =
        (Inl (OffsetFailed (map projl (probes net tx ps t))), t + length ps)) \<and>
   (isl (fst (fetchTxOffset net tx ps t)) \<longleftrightarrow> (\<forall>x \<in> set (probes net tx ps t). isl x))"
proof -
  have a: "fetchTxOffset net tx (pre @ p # rest) t = (Inr r, Suc (t + length pre))"
    if "\<forall>x \<in> set (probes net tx pre t). isl x" "offset_try net (t + length pre) p tx = Inr r"
    using that by (simp add: fetchTxOffset_def fetchTxOffset_loop_skip)
  have b: "fetchTxOffset net tx ps t =
        (Inl (OffsetFailed (map projl (probes net tx ps t))), t + length ps)"
    if "\<forall>x \<in> set (probes net tx ps t). isl x"
    using fetchTxOffset_loop_skip [OF that, of "[]" "[]"] by (simp add: fetchTxOffset_def)
  have c: "isl (fst (fetchTxOffset net tx ps t)) \<longleftrightarrow> (\<forall>x \<in> set (probes net tx ps t). isl x)"
    by (simp add: fetchTxOffset_def fetchTxOffset_loop_isl)
  from a b c offset_try_Inr [of net t p tx r] show ?thesis by blast
qed

theorem resolve_offset_witness:
  "fetchTxOffset net_two (lit ''tx'') [lit ''a'', lit ''b'', lit ''c''] 0 =
     (Inr \<lparr>peer = lit ''b'', offset = 999, txsize = 1000\<rparr>, 2) \<and>
   fetchTxOffset net_two (lit ''tx'') [lit ''a'', lit ''c''] 0 =
     (Inl (OffsetFailed [NotBigInt, Transport (lit ''timeout'')]), 2)"
proof -
  have 1: "\<forall>x \<in> set (probes net_two (lit ''tx'') [lit ''a''] 0). isl x"
    by (simp add: probes_Cons probes_Nil try_two_a)
  have 2: "offset_try net_two (0 + length [lit ''a'']) (lit ''b'') (lit ''tx'') =
      Inr \<lparr>peer = lit ''b'', offset = 999, txsize = 1000\<rparr>"
    by (rule try_two_b)
  have 3: "\<forall>x \<in> set (probes net_two (lit ''tx'') [lit ''a'', lit ''c''] 0). isl x"
    by (simp add: probes_Cons probes_Nil try_two_a try_two_c)
  from resolve_offset [of net_two 0 "lit ''b''" "lit ''tx''" _ "[lit ''a'']" "[lit ''c'']"] 1 2
  have "fetchTxOffset net_two (lit ''tx'') ([lit ''a''] @ lit ''b'' # [lit ''c'']) 0 =
     (Inr \<lparr>peer = lit ''b'', offset = 999, txsize = 1000\<rparr>, Suc (0 + length [lit ''a'']))"
    by blast
  moreover from resolve_offset [of net_two 0 "lit ''b''" "lit ''tx''" _ "[]" "[]" "[lit ''a'', lit ''c'']"] 3
  have "fetchTxOffset net_two (lit ''tx'') [lit ''a'', lit ''c''] 0 =
        (Inl (OffsetFailed (map projl (probes net_two (lit ''tx'') [lit ''a'', lit ''c''] 0))),
         0 + length [lit ''a'', lit ''c''])"
    by blast
  ultimately show ?thesis
    by (simp add: probes_Cons probes_Nil try_two_a try_two_c)
qed

text \<open>
  Claim C8 as stated fails: the response of peer \<open>a\<close> holds both fields, yet the call does
  not return on it, because the conversion of its \<open>offset\<close> throws inside the \<open>try\<close>; the
  result is that of peer \<open>b\<close>.
\<close>

theorem first_response_with_both_fields_counterexample:
  "net_two 0 (GetOffset (lit ''a'') (lit ''tx'')) =
     Data (Some \<lparr>j_chunk = None, j_offset = NotInteger, j_size = Num 1000\<rparr>) \<and>
   NotInteger \<noteq> Undefined \<and> Num 1000 \<noteq> Undefined \<and>
   fetchTxOffset net_two (lit ''tx'') [lit ''a'', lit ''b''] 0 =
     (Inr \<lparr>peer = lit ''b'', offset = 999, txsize = 1000\<rparr>, 2) \<and>
   lit ''b'' \<noteq> lit ''a''"
  by (simp add: fetchTxOffset_def try_two_a try_two_b) (simp add: net_two_def lit_def)

section \<open>Chunk fetch and assembly: properties\<close>

lemma fetchChunk_loop_Inr:
  "fetchChunk_loop net t ps pos errs = (Inr w, t') \<Longrightarrow>
   \<exists>p t''. fetchChunkFromPeer net t'' p pos = Inr w"
  by (induction ps arbitrary: t errs) (auto split: sum.splits)

lemma fetchChunk_loop_Inl:
  "fetchChunk_loop net t ps pos errs = (Inl e, t') \<Longrightarrow> \<exists>errs'. e = AllPeersFailed pos errs'"
  by (induction ps arbitrary: t errs) (auto split: sum.splits)

lemma fetchChunkFromPeer_endpos:
  "fetchChunkFromPeer net t p pos = Inr w \<Longrightarrow> endpos w = start w + int (length (buf w)) - 1"
  by (auto simp: fetchChunkFromPeer_def split: reply.splits option.splits field.splits if_splits)

lemma js_slice_from: "0 \<le> s \<Longrightarrow> js_slice xs s (int (length xs)) = drop (nat s) xs"
  by (auto simp: js_slice_def Let_def min_def)

lemma js_slice_upto: "0 \<le> e \<Longrightarrow> js_slice xs 0 e = take (nat e) xs"
  by (auto simp: js_slice_def Let_def min_def)

lemma usable_slice_eq:
  assumes "bytesAccum < size_tx"
  shows "usable_slice b s pos size_tx bytesAccum =
           take (nat (size_tx - bytesAccum)) (drop (nat (sliceStart s pos)) b)"
proof -
  have "0 \<le> sliceStart s pos" by (simp add: sliceStart_def)
  then have 1: "js_slice b (sliceStart s pos) (int (length b)) = drop (nat (sliceStart s pos)) b"
    by (rule js_slice_from)
  show ?thesis using assms
    by (simp add: usable_slice_def Let_def 1 js_slice_upto)
qed

lemma length_payload: "length (payload weave a n) = n"
  by (simp add: payload_def)

lemma payload_0: "payload weave a 0 = []"
  by (simp add: payload_def)

lemma drop_payload: "drop k (payload weave a n) = payload weave (a + int k) (n - k)"
  by (rule nth_equalityI) (auto simp: payload_def add.assoc)

lemma take_payload: "take k (payload weave a n) = payload weave a (min k n)"
  by (rule nth_equalityI) (auto simp: payload_def)

lemma payload_append: "payload weave a n @ payload weave (a + int n) m = payload weave a (n + m)"
  by (rule nth_equalityI) (auto simp: payload_def nth_append add.assoc)

lemma covering_advancing: "covering net \<Longrightarrow> advancing net"
  unfolding covering_def advancing_def
  by (fastforce dest: fetchChunkFromPeer_endpos)

lemma assemble_loop_done:
  "\<not> acc < size_tx \<Longrightarrow> assemble_loop net ps size_tx t buffers acc pos = Some (Inr buffers)"
  by (subst assemble_loop.simps) simp

lemma assemble_loop_error:
  "acc < size_tx \<Longrightarrow> fetchChunk net t ps pos = (Inl e, t') \<Longrightarrow>
   assemble_loop net ps size_tx t buffers acc pos = Some (Inl e)"
  by (subst assemble_loop.simps) simp

lemma assemble_loop_last:
  "acc < size_tx \<Longrightarrow> fetchChunk net t ps pos = (Inr w, t') \<Longrightarrow>
   size_tx \<le> acc + int (length (usable_slice (buf w) (start w) pos size_tx acc)) \<Longrightarrow>
   assemble_loop net ps size_tx t buffers acc pos =
     Some (Inr (buffers @ [usable_slice (buf w) (start w) pos size_tx acc]))"
  by (subst assemble_loop.simps) (simp add: Let_def)

lemma assemble_loop_next:
  "acc < size_tx \<Longrightarrow> fetchChunk net t ps pos = (Inr w, t') \<Longrightarrow>
   \<not> size_tx \<le> acc + int (length (usable_slice (buf w) (start w) pos size_tx acc)) \<Longrightarrow>
   assemble_loop net ps size_tx t buffers acc pos =
     assemble_loop net ps size_tx t'
       (buffers @ [usable_slice (buf w) (start w) pos size_tx acc])
       (acc + int (length (usable_slice (buf w) (start w) pos size_tx acc)))
       (start w + int (length (buf w)))"
  by (subst assemble_loop.simps) (simp add: Let_def)

lemma assemble_loop_total:
  assumes adv: "advancing net"
  shows "\<exists>r. assemble_loop net ps size_tx t buffers acc pos = Some r \<and>
              loop_post weave net size_tx buffers acc pos r"
proof (induction "nat (size_tx - acc)" arbitrary: t buffers acc pos rule: less_induct)
  case less
  show ?case
  proof (cases "acc < size_tx")
    case False
    then have "assemble_loop net ps size_tx t buffers acc pos = Some (Inr buffers)"
      by (rule assemble_loop_done)
    moreover have "loop_post weave net size_tx buffers acc pos (Inr buffers)"
      using False by (simp add: loop_post_def payload_0)
    ultimately show ?thesis by blast
  next
    case True
    obtain res t' where fc: "fetchChunk net t ps pos = (res, t')"
      by (cases "fetchChunk net t ps pos")
    show ?thesis
    proof (cases res)
      case (Inl e)
      then have "assemble_loop net ps size_tx t buffers acc pos = Some (Inl e)"
        using True fc by (simp add: assemble_loop_error)
      moreover have "loop_post weave net size_tx buffers acc pos (Inl e)"
        using fc Inl fetchChunk_loop_Inl [of net t ps pos "[]" e t']
        by (auto simp: loop_post_def fetchChunk_def)
      ultimately show ?thesis by blast
    next
      case (Inr w)
      then have fcw: "fetchChunk net t ps pos = (Inr w, t')" using fc by simp
      then obtain p t'' where got: "fetchChunkFromPeer net t'' p pos = Inr w"
        using fetchChunk_loop_Inr [of net t ps pos "[]" w t'] by (auto simp: fetchChunk_def)
      let ?n = "length (buf w)"
      let ?k = "nat (sliceStart (start w) pos)"
      let ?rem = "nat (size_tx - acc)"
      let ?u = "usable_slice (buf w) (start w) pos size_tx acc"
      have ne: "buf w \<noteq> []" and le: "pos \<le> endpos w"
        using adv got unfolding advancing_def by blast+
      have ep: "endpos w = start w + int ?n - 1" using got by (rule fetchChunkFromPeer_endpos)
      have k: "?k < ?n" using ne le ep by (auto simp: sliceStart_def)
      have u: "?u = take ?rem (drop ?k (buf w))" using True by (rule usable_slice_eq)
      have lu: "length ?u = min ?rem (?n - ?k)" by (simp add: u)
      have upos: "0 < length ?u" using k True by (simp add: lu)
      have cov: "?u = payload weave pos (length ?u)" if c: "covering net" and h: "honest weave net"
      proof -
        have b: "buf w = payload weave (start w) ?n" using h got unfolding honest_def by blast
        have s: "start w \<le> pos" using c got unfolding covering_def by blast
        then have "start w + int ?k = pos" by (simp add: sliceStart_def)
        then have "drop ?k (buf w) = payload weave pos (?n - ?k)"
          using drop_payload [of ?k weave "start w" ?n] b by simp
        then have "?u = payload weave pos (min ?rem (?n - ?k))"
          by (simp only: u take_payload)
        then show ?thesis by (simp add: length_payload)
      qed
      show ?thesis
      proof (cases "size_tx \<le> acc + int (length ?u)")
        case last: True
        have "assemble_loop net ps size_tx t buffers acc pos = Some (Inr (buffers @ [?u]))"
          using True fcw last by (rule assemble_loop_last)
        moreover have len: "length ?u = ?rem" using last True by (simp add: lu)
        have "?u = payload weave pos ?rem" if "covering net" "honest weave net"
          using cov [OF that] by (simp only: len)
        then have c: "covering net \<longrightarrow> honest weave net \<longrightarrow>
               concat [?u] = payload weave pos ?rem" by simp
        have a: "[] \<notin> set [?u]" using upos by auto
        have b: "int (length (concat [?u])) = max 0 (size_tx - acc)" using len True by simp
        from a b c have "loop_post weave net size_tx buffers acc pos (Inr (buffers @ [?u]))"
          unfolding loop_post_def by (simp only: sum.case) blast
        ultimately show ?thesis by blast
      next
        case more: False
        let ?acc' = "acc + int (length ?u)"
        let ?pos' = "start w + int ?n"
        have step: "assemble_loop net ps size_tx t buffers acc pos =
            assemble_loop net ps size_tx t' (buffers @ [?u]) ?acc' ?pos'"
          using True fcw more by (rule assemble_loop_next)
        have "nat (size_tx - ?acc') < nat (size_tx - acc)" using upos more by simp
        from less [OF this, of t' "buffers @ [?u]" ?pos'] obtain r where
          r: "assemble_loop net ps size_tx t' (buffers @ [?u]) ?acc' ?pos' = Some r"
          and post: "loop_post weave net size_tx (buffers @ [?u]) ?acc' ?pos' r" by blast
        have all: "length ?u = ?n - ?k" using more True by (simp add: lu)
        have "loop_post weave net size_tx buffers acc pos r"
        proof (cases r)
          case (Inl e)
          then show ?thesis using post by (simp add: loop_post_def)
        next
          case (Inr bufs)
          with post obtain new where new: "bufs = (buffers @ [?u]) @ new" "[] \<notin> set new"
            "int (length (concat new)) = max 0 (size_tx - ?acc')"
            "covering net \<longrightarrow> honest weave net \<longrightarrow>
               concat new = payload weave ?pos' (nat (size_tx - ?acc'))"
            by (auto simp: loop_post_def)
          have 1: "bufs = buffers @ (?u # new)" using new(1) by simp
          have 2: "[] \<notin> set (?u # new)" using new(2) upos by auto
          have 3: "int (length (concat (?u # new))) = max 0 (size_tx - acc)"
            using new(3) more by simp
          have 4: "concat (?u # new) = payload weave pos (nat (size_tx - acc))"
            if c: "covering net" and h: "honest weave net"
          proof -
            have s: "start w \<le> pos" using c got unfolding covering_def by blast
            then have "?pos' = pos + int (length ?u)" using k by (simp add: all sliceStart_def)
            then have "concat new = payload weave (pos + int (length ?u)) (nat (size_tx - ?acc'))"
              using new(4) c h by simp
            moreover have "length ?u + nat (size_tx - ?acc') = nat (size_tx - acc)"
              using more by simp
            ultimately show ?thesis
              using cov [OF c h] payload_append [of weave pos "length ?u" "nat (size_tx - ?acc')"]
              by simp
          qed
          from 1 2 3 4 Inr show ?thesis unfolding loop_post_def by (simp only: sum.case) blast
        qed
        with r step show ?thesis by simp
      qed
    qed
  qed
qed

lemma slices_positions:
  assumes "concat bufs = payload weave s n" and "k < length bufs"
  shows "bufs ! k = payload weave (s + int (length (concat (take k bufs)))) (length (bufs ! k))"
proof -
  let ?A = "concat (take k bufs)"
  let ?C = "concat (drop (Suc k) bufs)"
  have "bufs = take k bufs @ bufs ! k # drop (Suc k) bufs" using assms(2) by (rule id_take_nth_drop)
  then have "concat bufs = ?A @ bufs ! k @ ?C" by (metis concat.simps(2) concat_append)
  then have c: "payload weave s n = ?A @ bufs ! k @ ?C" using assms(1) by simp
  then have n: "n = length ?A + length (bufs ! k) + length ?C"
    using length_payload [of weave s n] by simp
  have "bufs ! k = take (length (bufs ! k)) (drop (length ?A) (payload weave s n))"
    by (simp add: c)
  also have "\<dots> = payload weave (s + int (length ?A)) (length (bufs ! k))"
    using n by (simp only: drop_payload take_payload) simp
  finally show ?thesis .
qed

lemma fetch_aligned:
  "fetchChunkFromPeer net_aligned t p pos =
     Inr \<lparr>buf = payload weave0 (4 * (pos div 4)) 4, start = 4 * (pos div 4),
          endpos = 4 * (pos div 4) + 3\<rparr>"
  by (simp add: fetchChunkFromPeer_def net_aligned_def length_payload)

lemma covering_aligned: "covering net_aligned"
  unfolding covering_def fetch_aligned by (auto simp: length_payload)

lemma honest_aligned: "honest weave0 net_aligned"
  unfolding honest_def fetch_aligned by (auto simp: length_payload)

lemma advancing_aligned: "advancing net_aligned"
  using covering_aligned by (rule covering_advancing)

lemma payload4: "payload weave0 a 4 = [weave0 a, weave0 (a + 1), weave0 (a + 2), weave0 (a + 3)]"
  by (simp add: payload_def upt_rec)

lemma run_aligned:
  "assemble_loop net_aligned (p # ps) 6 t [] 0 2 = Some (Inr [[2, 3], [4, 5, 6, 7]])"
  by (simp add: assemble_loop.simps fetchChunk_def fetch_aligned Let_def usable_slice_def
      sliceStart_def js_slice_def payload4 weave0_def)

lemma fetch_behind:
  "fetchChunkFromPeer net_behind t p pos = Inr \<lparr>buf = [0], start = pos - 1, endpos = pos - 1\<rparr>"
  by (simp add: fetchChunkFromPeer_def net_behind_def)

lemma usable_behind: "usable_slice [0] (pos - 1) pos 1 0 = []"
  by (simp add: usable_slice_def sliceStart_def js_slice_def)

lemma stalled_never_returns:
  assumes "assemble_loop net ps size_tx t buffers acc pos = Some y"
  shows "\<not> (net = net_behind \<and> ps = p # rest \<and> size_tx = 1 \<and> acc = 0)"
proof -
  define P where "P = (\<lambda>(net::net) (ps::jsstring list) (size_tx::int) (t::nat)
      (buffers::byte list list) (acc::int) (pos::int) (y::error + byte list list).
      \<not> (net = net_behind \<and> ps = p # rest \<and> size_tx = 1 \<and> acc = 0))"
  have "P net ps size_tx t buffers acc pos y"
  proof (rule assemble_loop.raw_induct [where P = P, OF _ assms])
    fix f net ps size_tx t buffers acc pos y
    assume IH: "\<And>net ps size_tx t buffers acc pos y.
        f net ps size_tx t buffers acc pos = Some y \<Longrightarrow> P net ps size_tx t buffers acc pos y"
    assume step: "(if acc < size_tx
      then case fetchChunk net t ps pos of
           (Inl err, t') \<Rightarrow> Some (Inl err)
           | (Inr w, t') \<Rightarrow>
               let usable = usable_slice (buf w) (start w) pos size_tx acc;
                   buffers' = buffers @ [usable];
                   bytesAccum' = acc + int (length usable)
               in if size_tx \<le> bytesAccum' then Some (Inr buffers')
                  else f net ps size_tx t' buffers' bytesAccum' (start w + int (length (buf w)))
      else Some (Inr buffers)) = Some y"
    show "P net ps size_tx t buffers acc pos y"
      unfolding P_def
    proof
      assume a: "net = net_behind \<and> ps = p # rest \<and> size_tx = 1 \<and> acc = 0"
      then have "f net_behind (p # rest) 1 (Suc t) (buffers @ [[]]) 0 pos = Some y"
        using step by (simp add: fetchChunk_def fetch_behind usable_behind)
      from IH [OF this] show False by (simp add: P_def)
    qed
  qed
  then show ?thesis by (simp add: P_def)
qed

lemma loop_behind: "assemble_loop net_behind (p # rest) 1 t buffers 0 pos = None"
proof (cases "assemble_loop net_behind (p # rest) 1 t buffers 0 pos")
  case (Some y)
  from stalled_never_returns [OF this, of p rest] show ?thesis by simp
qed simp

lemma fetch_gap:
  "fetchChunkFromPeer net_gap t p pos =
     Inr \<lparr>buf = payload weave0 (pos + 2) 2, start = pos + 2, endpos = pos + 3\<rparr>"
  by (simp add: fetchChunkFromPeer_def net_gap_def length_payload)

lemma honest_gap: "honest weave0 net_gap"
  unfolding honest_def fetch_gap by (auto simp: length_payload)

lemma payload2: "payload weave0 a 2 = [weave0 a, weave0 (a + 1)]"
  by (simp add: payload_def upt_rec)

lemma run_gap:
  "assemble_loop net_gap (p # ps) 4 t [] 0 0 = Some (Inr [[2, 3], [6, 7]])"
  by (simp add: assemble_loop.simps fetchChunk_def fetch_gap Let_def usable_slice_def
      sliceStart_def js_slice_def payload2 weave0_def)

text \<open>
  Claim C9. For a chunk response without an \<open>offset\<close> field, \<open>fetchChunkFromPeer\<close> takes the
  chunk to end at \<open>absPos + len - 1\<close>, so the window starts at the requested position
  \<open>absPos\<close>; the start does not precede the request, \<open>sliceStart\<close> is 0 and the usable slice
  is a prefix of the chunk.
\<close>

theorem absent_offset_window:
  "net t (GetChunk p absPos) = Data (Some js) \<and> j_chunk js = Some b \<and> j_offset js = Undefined \<longrightarrow>
   fetchChunkFromPeer net t p absPos =
     Inr \<lparr>buf = b, start = absPos, endpos = absPos + int (length b) - 1\<rparr> \<and>
   \<not> absPos < absPos \<and>
   sliceStart absPos absPos = 0 \<and>
   (bytesAccum < size_tx \<longrightarrow>
      usable_slice b absPos absPos size_tx bytesAccum = take (nat (size_tx - bytesAccum)) b)"
  by (simp add: fetchChunkFromPeer_def usable_slice_eq sliceStart_def)

theorem absent_offset_window_witness:
  "fetchChunkFromPeer net_plain 0 (lit ''a'') 40 = Inr \<lparr>buf = [1, 2, 3], start = 40, endpos = 42\<rparr> \<and>
   sliceStart 40 40 = 0 \<and>
   usable_slice [1, 2, 3] 40 40 1000 998 = [1, 2]"
proof -
  have "net_plain 0 (GetChunk (lit ''a'') 40) =
      Data (Some \<lparr>j_chunk = Some [1, 2, 3], j_offset = Undefined, j_size = Undefined\<rparr>)"
    by (simp add: net_plain_def)
  from absent_offset_window [of net_plain 0 "lit ''a''" 40
      "\<lparr>j_chunk = Some [1, 2, 3], j_offset = Undefined, j_size = Undefined\<rparr>" "[1, 2, 3]" 998 1000]
    this
  show ?thesis by simp
qed

text \<open>
  Claim C2, as amended. For a window that contains the next unread position
  (\<open>start \<le> nextPos \<le> start + len\<close>), the loop drops exactly \<open>nextPos - start\<close> bytes from its
  front and truncates the rest so that the accumulated length does not exceed the size; when
  the size is not yet reached, the loop goes on from \<open>start + len\<close>. When every window
  contains the requested position and carries the bytes of the weave over its own range,
  the slices of a run that returns are non-empty, slice \<open>k\<close> holds the bytes that follow
  those of the slices before it, and their concatenation is the payload from the start
  offset, of the resolved size.
\<close>

theorem usable_slices_cover:
  "(start_w \<le> nextPos \<and> nextPos \<le> start_w + int (length b) \<and> bytesAccum < size_tx \<longrightarrow>
      usable_slice b start_w nextPos size_tx bytesAccum =
        take (nat (size_tx - bytesAccum)) (drop (nat (nextPos - start_w)) b) \<and>
      bytesAccum + int (length (usable_slice b start_w nextPos size_tx bytesAccum)) \<le> size_tx) \<and>
   (bytesAccum < size_tx \<and> fetchChunk net t ps nextPos = (Inr w, t') \<and>
    bytesAccum + int (length (usable_slice (buf w) (start w) nextPos size_tx bytesAccum)) < size_tx
    \<longrightarrow>
      assemble_loop net ps size_tx t buffers bytesAccum nextPos =
        assemble_loop net ps size_tx t'
          (buffers @ [usable_slice (buf w) (start w) nextPos size_tx bytesAccum])
          (bytesAccum + int (length (usable_slice (buf w) (start w) nextPos size_tx bytesAccum)))
          (start w + int (length (buf w)))) \<and>
   (covering net \<and> honest weave net \<and>
    assemble_loop net ps size_tx t [] 0 startOffset = Some (Inr bufs) \<longrightarrow>
      concat bufs = payload weave startOffset (nat size_tx) \<and>
      [] \<notin> set bufs \<and>
      (\<forall>k<length bufs.
         bufs ! k = payload weave (startOffset + int (length (concat (take k bufs))))
                      (length (bufs ! k))))"
proof -
  have a: "usable_slice b start_w nextPos size_tx bytesAccum =
        take (nat (size_tx - bytesAccum)) (drop (nat (nextPos - start_w)) b) \<and>
      bytesAccum + int (length (usable_slice b start_w nextPos size_tx bytesAccum)) \<le> size_tx"
    if "start_w \<le> nextPos" "nextPos \<le> start_w + int (length b)" "bytesAccum < size_tx"
  proof -
    have "sliceStart start_w nextPos = nextPos - start_w"
      using that(1) by (simp add: sliceStart_def)
    then have "usable_slice b start_w nextPos size_tx bytesAccum =
        take (nat (size_tx - bytesAccum)) (drop (nat (nextPos - start_w)) b)"
      using usable_slice_eq [OF that(3), of b start_w nextPos] by simp
    then show ?thesis using that(3) by simp
  qed
  have b: "assemble_loop net ps size_tx t buffers bytesAccum nextPos =
        assemble_loop net ps size_tx t'
          (buffers @ [usable_slice (buf w) (start w) nextPos size_tx bytesAccum])
          (bytesAccum + int (length (usable_slice (buf w) (start w) nextPos size_tx bytesAccum)))
          (start w + int (length (buf w)))"
    if "bytesAccum < size_tx" "fetchChunk net t ps nextPos = (Inr w, t')"
      "bytesAccum + int (length (usable_slice (buf w) (start w) nextPos size_tx bytesAccum)) < size_tx"
    using that by (intro assemble_loop_next) simp_all
  have c: "concat bufs = payload weave startOffset (nat size_tx) \<and>
      [] \<notin> set bufs \<and>
      (\<forall>k<length bufs.
         bufs ! k = payload weave (startOffset + int (length (concat (take k bufs))))
                      (length (bufs ! k)))"
    if cov: "covering net" and hon: "honest weave net"
      and run: "assemble_loop net ps size_tx t [] 0 startOffset = Some (Inr bufs)"
  proof -
    from assemble_loop_total [OF covering_advancing [OF cov], of ps size_tx t "[]" 0 startOffset weave]
    have "loop_post weave net size_tx [] 0 startOffset (Inr bufs)" using run by simp
    then have 1: "concat bufs = payload weave startOffset (nat size_tx)" and 2: "[] \<notin> set bufs"
      using cov hon by (auto simp: loop_post_def)
    from 1 2 slices_positions [OF 1] show ?thesis by blast
  qed
  from a b c show ?thesis by blast
qed

theorem usable_slices_cover_witness:
  "usable_slice [0, 1, 2, 3] 0 2 6 0 = [2, 3] \<and>
   assemble_loop net_aligned [lit ''a''] 6 0 [] 0 2 =
     assemble_loop net_aligned [lit ''a''] 6 1 [[2, 3]] 2 4 \<and>
   covering net_aligned \<and> honest weave0 net_aligned \<and>
   assemble_loop net_aligned [lit ''a''] 6 0 [] 0 2 = Some (Inr [[2, 3], [4, 5, 6, 7]]) \<and>
   concat [[2, 3], [4, 5, 6, 7]] = payload weave0 2 6 \<and>
   [4, 5, 6, 7] = payload weave0 (2 + 2) 4"
proof -
  let ?w = "\<lparr>buf = payload weave0 0 4, start = 0, endpos = 3\<rparr>"
  have p4: "payload weave0 0 4 = [0, 1, 2, 3]" by (simp add: payload4 weave0_def)
  have fc: "fetchChunk net_aligned 0 [lit ''a''] 2 = (Inr ?w, 1)"
    by (simp add: fetchChunk_def fetch_aligned)
  have us: "usable_slice [0, 1, 2, 3] 0 2 6 0 = [2, 3]"
    using usable_slices_cover [of 0 2 "[0, 1, 2, 3]" 0 6] by simp
  have run: "assemble_loop net_aligned [lit ''a''] 6 0 [] 0 2 = Some (Inr [[2, 3], [4, 5, 6, 7]])"
    by (rule run_aligned)
  have step: "assemble_loop net_aligned [lit ''a''] 6 0 [] 0 2 =
     assemble_loop net_aligned [lit ''a''] 6 1 [[2, 3]] 2 4"
    using usable_slices_cover [of 0 2 "[0, 1, 2, 3]" 0 6 net_aligned 0 "[lit ''a'']" ?w 1 "[]"] fc
    by (simp add: p4 us)
  from usable_slices_cover [of 0 2 "[0, 1, 2, 3]" 0 6 net_aligned 0 "[lit ''a'']" ?w 1 "[]"
      weave0 2 "[[2, 3], [4, 5, 6, 7]]"] covering_aligned honest_aligned run
  have c: "concat [[2, 3], [4, 5, 6, 7]] = payload weave0 2 (nat 6) \<and>
      (\<forall>k<length [[2, 3], [4, 5, 6, 7::byte]].
         [[2, 3], [4, 5, 6, 7]] ! k =
           payload weave0 (2 + int (length (concat (take k [[2, 3], [4, 5, 6, 7::byte]]))))
             (length ([[2, 3], [4, 5, 6, 7::byte]] ! k)))"
    by blast
  then have c1: "concat [[2, 3], [4, 5, 6, 7]] = payload weave0 2 6" by simp
  have c2: "[4, 5, 6, 7] = payload weave0 (2 + 2) 4" by (simp add: payload4 weave0_def)
  from us step covering_aligned honest_aligned run c1 c2 show ?thesis by blast
qed

text \<open>
  Claim C2 as stated fails for windows that do not contain the requested position.
  \<open>net_gap\<close> serves true bytes of the weave (lemma \<open>honest_gap\<close>), but each window starts two
  bytes after the position asked for: the run returns the bytes at positions 2, 3, 6, 7
  for the payload at positions 0 to 3. And from a window of two bytes that starts five
  bytes before the next position, two bytes are dropped, not five.
\<close>

theorem gap_after_requested_position_counterexample:
  "honest weave0 net_gap \<and>
   assemble_loop net_gap [lit ''a''] 4 0 [] 0 0 = Some (Inr [[2, 3], [6, 7]]) \<and>
   concat [[2, 3], [6, 7]] \<noteq> payload weave0 0 4 \<and>
   (0::int) < 5 \<and>
   int (length [1, 2 :: byte]) - int (length (usable_slice [1, 2] 0 5 10 0)) \<noteq> 5 - 0"
proof -
  have "payload weave0 0 4 = [0, 1, 2, 3]" by (simp add: payload4 weave0_def)
  moreover have "usable_slice [1, 2] 0 5 10 0 = []"
    by (simp add: usable_slice_def sliceStart_def js_slice_def)
  ultimately show ?thesis by (simp add: honest_gap run_gap)
qed

text \<open>
  Claim C4, as amended. The loop has no check for lack of progress. It terminates for every
  sequence of responses in which each fetched chunk is non-empty and does not end before
  the requested position: the run then ends either with the error of \<open>fetchChunk\<close>, all
  peers having failed for one position, or with buffers whose total length is the
  resolved size (0 for a size below 0).
\<close>

theorem assembly_terminates:
  "advancing net \<longrightarrow>
   (\<exists>r. assemble_loop net ps size_tx t [] 0 pos = Some r \<and>
      (case r of
         Inl e \<Rightarrow> \<exists>q errs. e = AllPeersFailed q errs
       | Inr bufs \<Rightarrow> int (length (concat bufs)) = max 0 size_tx))"
proof
  assume "advancing net"
  from assemble_loop_total [OF this, of ps size_tx t "[]" 0 pos]
  obtain r where r: "assemble_loop net ps size_tx t [] 0 pos = Some r"
    and p: "loop_post (\<lambda>_. 0) net size_tx [] 0 pos r" by blast
  have "case r of
         Inl e \<Rightarrow> \<exists>q errs. e = AllPeersFailed q errs
       | Inr bufs \<Rightarrow> int (length (concat bufs)) = max 0 size_tx"
    using p by (cases r) (auto simp: loop_post_def)
  with r show "\<exists>r. assemble_loop net ps size_tx t [] 0 pos = Some r \<and>
      (case r of
         Inl e \<Rightarrow> \<exists>q errs. e = AllPeersFailed q errs
       | Inr bufs \<Rightarrow> int (length (concat bufs)) = max 0 size_tx)" by blast
qed

theorem assembly_terminates_witness:
  "advancing net_aligned \<and>
   (\<exists>r. assemble_loop net_aligned [lit ''a''] 6 0 [] 0 2 = Some r \<and>
      (case r of
         Inl e \<Rightarrow> \<exists>q errs. e = AllPeersFailed q errs
       | Inr bufs \<Rightarrow> int (length (concat bufs)) = max 0 6))"
  using assembly_terminates [of net_aligned "[lit ''a'']" 6 0 2] advancing_aligned by blast

lemma try_behind:
  "offset_try net_behind t p tx = Inr \<lparr>peer = p, offset = 0, txsize = 1\<rparr>"
  by (simp add: offset_try_def net_behind_def)

text \<open>
  Claim C4 as stated fails: when every peer answers with a one-byte chunk whose end offset
  lies before the requested position, the usable slice is empty, the next position is the
  one just asked for, and neither the loop nor \<open>fetchArweaveChunks\<close> ever returns.
\<close>

theorem no_progress_loops_counterexample:
  "fetchChunkFromPeer net_behind 0 (lit ''a'') 5 = Inr \<lparr>buf = [0], start = 4, endpos = 4\<rparr> \<and>
   usable_slice [0] 4 5 1 0 = [] \<and>
   assemble_loop net_behind [lit ''a''] 1 0 [] 0 5 = None \<and>
   fetchArweaveChunks net_behind os0 Map.empty = None"
proof -
  obtain rest where ps: "allPeers (peers os0) = lit ''https://arweave.net'' # rest"
    using allPeers_Cons by blast
  have "fetchArweaveChunks net_behind os0 Map.empty = None"
    by (simp add: fetchArweaveChunks_def fetchTxOffset_def ps try_behind Let_def loop_behind
        write_outfile_def)
  moreover have "usable_slice [0] 4 5 1 0 = []"
    using usable_behind [of 5] by simp
  ultimately show ?thesis by (simp add: fetch_behind loop_behind)
qed

lemma try_aligned:
  "offset_try net_aligned t p tx = Inr \<lparr>peer = p, offset = 7, txsize = 6\<rparr>"
  by (simp add: offset_try_def net_aligned_def)

lemma try_negative:
  "offset_try net_negative t p tx = Inr \<lparr>peer = p, offset = 0, txsize = - 1\<rparr>"
  by (simp add: offset_try_def net_negative_def)

lemma try_plain:
  "offset_try net_plain t p tx = Inr \<lparr>peer = p, offset = 999, txsize = 1000\<rparr>"
  by (simp add: offset_try_def net_plain_def)

lemma outfile_os0: "outfile_name os0 = lit ''tx.bin''"
  by (simp add: outfile_name_def os0_def lit_def)

text \<open>
  Claim C1. When \<open>fetchArweaveChunks\<close> returns normally, the bytes written to the output
  file are exactly as many as the \<open>size\<close> of the offset lookup, and the count returned is
  their number. When it throws, no file is written. When the loop ends with buffers
  whose total length differs from \<open>size\<close>, it throws the \<open>Incomplete\<close> error and writes
  nothing.
\<close>

theorem assembled_length:
  "(fetchArweaveChunks net os fs = Some (Inr res, fs') \<longrightarrow>
      (\<exists>r t outBuf. fetchTxOffset net (txid os) (allPeers (peers os)) 0 = (Inr r, t) \<and>
         int (length outBuf) = txsize r \<and> bytes res = length outBuf \<and>
         fs' = fs(outfile_name os \<mapsto> outBuf))) \<and>
   (fetchArweaveChunks net os fs = Some (Inl e, fs') \<longrightarrow> fs' = fs) \<and>
   (fetchTxOffset net (txid os) (allPeers (peers os)) 0 = (Inr r, t) \<and>
    assemble_loop net (allPeers (peers os)) (txsize r) t [] 0 (offset r - txsize r + 1)
      = Some (Inr buffers) \<and>
    int (length (concat buffers)) \<noteq> txsize r \<longrightarrow>
      fetchArweaveChunks net os fs =
        Some (Inl (Incomplete (txsize r) (length (concat buffers))), fs))"
proof -
  obtain x t0 where x: "fetchTxOffset net (txid os) (allPeers (peers os)) 0 = (x, t0)"
    by (cases "fetchTxOffset net (txid os) (allPeers (peers os)) 0")
  have a: "\<exists>r t outBuf. fetchTxOffset net (txid os) (allPeers (peers os)) 0 = (Inr r, t) \<and>
         int (length outBuf) = txsize r \<and> bytes res = length outBuf \<and>
         fs' = fs(outfile_name os \<mapsto> outBuf)"
    if "fetchArweaveChunks net os fs = Some (Inr res, fs')"
    using that x
    by (cases x)
      (auto simp: fetchArweaveChunks_def write_outfile_def Let_def
        split: option.splits sum.splits if_splits)
  have b: "fs' = fs" if "fetchArweaveChunks net os fs = Some (Inl e, fs')"
    using that x
    by (cases x)
      (auto simp: fetchArweaveChunks_def write_outfile_def Let_def
        split: option.splits sum.splits if_splits)
  have c: "fetchArweaveChunks net os fs =
        Some (Inl (Incomplete (txsize r) (length (concat buffers))), fs)"
    if "fetchTxOffset net (txid os) (allPeers (peers os)) 0 = (Inr r, t)"
      "assemble_loop net (allPeers (peers os)) (txsize r) t [] 0 (offset r - txsize r + 1)
        = Some (Inr buffers)"
      "int (length (concat buffers)) \<noteq> txsize r"
    using that by (simp add: fetchArweaveChunks_def write_outfile_def Let_def)
  from a b c show ?thesis by blast
qed

theorem assembled_length_witness:
  "fetchArweaveChunks net_aligned os0 Map.empty =
     Some (Inr \<lparr>res_outfile = lit ''tx.bin'', bytes = 6\<rparr>,
           [lit ''tx.bin'' \<mapsto> [2, 3, 4, 5, 6, 7]]) \<and>
   (\<exists>r t outBuf. fetchTxOffset net_aligned (txid os0) (allPeers (peers os0)) 0 = (Inr r, t) \<and>
         int (length outBuf) = txsize r \<and> 6 = length outBuf \<and>
         [lit ''tx.bin'' \<mapsto> [2, 3, 4, 5, 6, 7 :: byte]] = [lit ''tx.bin'' \<mapsto> outBuf]) \<and>
   fetchArweaveChunks net_negative os0 Map.empty = Some (Inl (Incomplete (- 1) 0), Map.empty)"
proof -
  obtain rest where ps: "allPeers (peers os0) = lit ''https://arweave.net'' # rest"
    using allPeers_Cons by blast
  let ?p = "lit ''https://arweave.net''"
  have run: "fetchArweaveChunks net_aligned os0 Map.empty =
     Some (Inr \<lparr>res_outfile = lit ''tx.bin'', bytes = 6\<rparr>,
           [lit ''tx.bin'' \<mapsto> [2, 3, 4, 5, 6, 7]])"
    by (simp add: fetchArweaveChunks_def fetchTxOffset_def ps try_aligned Let_def run_aligned
        write_outfile_def outfile_os0)
  have off: "fetchTxOffset net_negative (txid os0) (allPeers (peers os0)) 0 =
      (Inr \<lparr>peer = ?p, offset = 0, txsize = - 1\<rparr>, 1)"
    by (simp add: fetchTxOffset_def ps try_negative)
  have loop: "assemble_loop net_negative (allPeers (peers os0))
      (txsize \<lparr>peer = ?p, offset = 0, txsize = - 1\<rparr>) 1 [] 0
      (offset \<lparr>peer = ?p, offset = 0, txsize = - 1\<rparr> - txsize \<lparr>peer = ?p, offset = 0, txsize = - 1\<rparr> + 1)
      = Some (Inr [])"
    by (simp add: assemble_loop_done)
  have ne: "int (length (concat ([] :: byte list list))) \<noteq> txsize \<lparr>peer = ?p, offset = 0, txsize = - 1\<rparr>"
    by simp
  from assembled_length [of net_aligned os0 Map.empty "\<lparr>res_outfile = lit ''tx.bin'', bytes = 6\<rparr>"
      "[lit ''tx.bin'' \<mapsto> [2, 3, 4, 5, 6, 7]]"] run
  have 1: "\<exists>r t outBuf. fetchTxOffset net_aligned (txid os0) (allPeers (peers os0)) 0 = (Inr r, t) \<and>
         int (length outBuf) = txsize r \<and> 6 = length outBuf \<and>
         [lit ''tx.bin'' \<mapsto> [2, 3, 4, 5, 6, 7 :: byte]] = [lit ''tx.bin'' \<mapsto> outBuf]"
    by (simp add: outfile_os0)
  from assembled_length [of net_negative os0 Map.empty _ _ _ "\<lparr>peer = ?p, offset = 0, txsize = - 1\<rparr>" 1 "[]"]
    off loop ne
  have 2: "fetchArweaveChunks net_negative os0 Map.empty = Some (Inl (Incomplete (- 1) 0), Map.empty)"
    by simp
  from run 1 2 show ?thesis by blast
qed

text \<open>
  Claim C3. With the end offset \<open>E\<close> and the size \<open>S\<close> of the offset lookup, the assembly starts
  at position \<open>E - S + 1\<close>, computed on unbounded integers; for the response with offset 999
  and size 1000 that position is 0. What the start offset decides can be seen in the file:
  when the peers serve windows of the weave that contain the positions asked for, the
  bytes written are those of the weave from position \<open>E - S + 1\<close> on.
\<close>

theorem start_offset_resolved:
  "(fetchTxOffset net (txid os) (allPeers (peers os)) 0 = (Inr r, t) \<longrightarrow>
      fetchArweaveChunks net os fs =
        write_outfile os fs (txsize r)
          (assemble_loop net (allPeers (peers os)) (txsize r) t [] 0 (offset r - txsize r + 1))) \<and>
   (fetchTxOffset net (txid os) (allPeers (peers os)) 0 = (Inr r, t) \<and>
    covering net \<and> honest weave net \<and>
    fetchArweaveChunks net os fs = Some (Inr res, fs') \<longrightarrow>
      fs' (outfile_name os) = Some (payload weave (offset r - txsize r + 1) (nat (txsize r))))"
proof -
  let ?ps = "allPeers (peers os)"
  let ?s0 = "offset r - txsize r + 1"
  have unfold: "fetchArweaveChunks net os fs =
        write_outfile os fs (txsize r) (assemble_loop net ?ps (txsize r) t [] 0 ?s0)"
    if "fetchTxOffset net (txid os) ?ps 0 = (Inr r, t)"
    using that by (simp add: fetchArweaveChunks_def Let_def)
  have written: "fs' (outfile_name os) = Some (payload weave ?s0 (nat (txsize r)))"
    if off: "fetchTxOffset net (txid os) ?ps 0 = (Inr r, t)"
      and cov: "covering net" and hon: "honest weave net"
      and ret: "fetchArweaveChunks net os fs = Some (Inr res, fs')"
  proof -
    from assemble_loop_total [OF covering_advancing [OF cov], of ?ps "txsize r" t "[]" 0 ?s0 weave]
    obtain x where x: "assemble_loop net ?ps (txsize r) t [] 0 ?s0 = Some x"
      and p: "loop_post weave net (txsize r) [] 0 ?s0 x" by blast
    from ret unfold [OF off] x
    have w: "write_outfile os fs (txsize r) (Some x) = Some (Inr res, fs')" by simp
    then obtain buffers where b: "x = Inr buffers"
      by (cases x) (simp_all add: write_outfile_def)
    from w b have f: "fs' = fs(outfile_name os \<mapsto> concat buffers)"
      by (simp add: write_outfile_def Let_def split: if_splits)
    from p b cov hon have "concat buffers = payload weave ?s0 (nat (txsize r))"
      by (auto simp: loop_post_def)
    with f show ?thesis by simp
  qed
  from unfold written show ?thesis by blast
qed

theorem start_offset_resolved_witness:
  "fetchTxOffset net_plain (txid os0) (allPeers (peers os0)) 0 =
     (Inr \<lparr>peer = lit ''https://arweave.net'', offset = 999, txsize = 1000\<rparr>, 1) \<and>
   fetchArweaveChunks net_plain os0 Map.empty =
     write_outfile os0 Map.empty 1000
       (assemble_loop net_plain (allPeers (peers os0)) 1000 1 [] 0 0) \<and>
   fetchTxOffset net_aligned (txid os0) (allPeers (peers os0)) 0 =
     (Inr \<lparr>peer = lit ''https://arweave.net'', offset = 7, txsize = 6\<rparr>, 1) \<and>
   covering net_aligned \<and> honest weave0 net_aligned \<and>
   fetchArweaveChunks net_aligned os0 Map.empty =
     Some (Inr \<lparr>res_outfile = lit ''tx.bin'', bytes = 6\<rparr>,
           [lit ''tx.bin'' \<mapsto> [2, 3, 4, 5, 6, 7]]) \<and>
   [lit ''tx.bin'' \<mapsto> [2, 3, 4, 5, 6, 7 :: byte]] (lit ''tx.bin'') = Some (payload weave0 (7 - 6 + 1) 6)"
proof -
  obtain rest where ps: "allPeers (peers os0) = lit ''https://arweave.net'' # rest"
    using allPeers_Cons by blast
  let ?p = "lit ''https://arweave.net''"
  have off: "fetchTxOffset net_plain (txid os0) (allPeers (peers os0)) 0 =
      (Inr \<lparr>peer = ?p, offset = 999, txsize = 1000\<rparr>, 1)"
    by (simp add: fetchTxOffset_def ps try_plain)
  from start_offset_resolved [of net_plain os0 "\<lparr>peer = ?p, offset = 999, txsize = 1000\<rparr>" 1
      Map.empty] off
  have 1: "fetchArweaveChunks net_plain os0 Map.empty =
     write_outfile os0 Map.empty 1000
       (assemble_loop net_plain (allPeers (peers os0)) 1000 1 [] 0 0)"
    by simp
  have off': "fetchTxOffset net_aligned (txid os0) (allPeers (peers os0)) 0 =
      (Inr \<lparr>peer = ?p, offset = 7, txsize = 6\<rparr>, 1)"
    by (simp add: fetchTxOffset_def ps try_aligned)
  have run: "fetchArweaveChunks net_aligned os0 Map.empty =
     Some (Inr \<lparr>res_outfile = lit ''tx.bin'', bytes = 6\<rparr>,
           [lit ''tx.bin'' \<mapsto> [2, 3, 4, 5, 6, 7]])"
    by (simp add: fetchArweaveChunks_def fetchTxOffset_def ps try_aligned Let_def run_aligned
        write_outfile_def outfile_os0)
  from start_offset_resolved [of net_aligned os0 "\<lparr>peer = ?p, offset = 7, txsize = 6\<rparr>" 1
      Map.empty weave0 "\<lparr>res_outfile = lit ''tx.bin'', bytes = 6\<rparr>"
      "[lit ''tx.bin'' \<mapsto> [2, 3, 4, 5, 6, 7]]"]
    off' covering_aligned honest_aligned run
  have 2: "[lit ''tx.bin'' \<mapsto> [2, 3, 4, 5, 6, 7 :: byte]] (lit ''tx.bin'')
      = Some (payload weave0 (7 - 6 + 1) 6)"
    by (simp add: outfile_os0)
  from off 1 off' covering_aligned honest_aligned run 2 show ?thesis by blast
qed

section \<open>Chunk upload: properties\<close>

lemma try_chunk_accepted:
  "accepted u i a \<Longrightarrow>
   try_chunk u i a st = (Inr (), st\<lparr>posted := Suc (posted st), successCount := Suc (successCount st)\<rparr>)"
  by (simp add: try_chunk_def accepted_def Let_def)

lemma try_chunk_refused:
  "\<not> accepted u i a \<Longrightarrow>
   \<exists>e. try_chunk u i a st =
     (Inl e, st\<lparr>posted := (if validatePath u i then Suc (posted st) else posted st)\<rparr>)"
  by (auto simp: try_chunk_def accepted_def Let_def)

lemma chunk_loop_accepted:
  "accepted u i a \<Longrightarrow>
   chunk_loop u i a st = st\<lparr>posted := Suc (posted st), successCount := Suc (successCount st)\<rparr>"
  by (subst chunk_loop.simps) (simp add: try_chunk_accepted)

lemma chunk_loop_give_up:
  assumes "\<not> accepted u i a" "MAX_RETRIES_PER_CHUNK \<le> a"
  shows "chunk_loop u i a st =
     st\<lparr>posted := (if validatePath u i then Suc (posted st) else posted st),
        failedChunks := failedChunks st @ [Suc i]\<rparr>"
proof -
  from try_chunk_refused [OF assms(1)] obtain e where
    "try_chunk u i a st =
       (Inl e, st\<lparr>posted := (if validatePath u i then Suc (posted st) else posted st)\<rparr>)" by blast
  then show ?thesis using assms(2) by (subst chunk_loop.simps) (simp add: Let_def)
qed

lemma chunk_loop_retry:
  assumes "\<not> accepted u i a" "a < MAX_RETRIES_PER_CHUNK"
  shows "chunk_loop u i a st =
     chunk_loop u i (Suc a)
       (st\<lparr>posted := (if validatePath u i then Suc (posted st) else posted st),
           slept := slept st @ [RETRY_DELAY_MS_BASE * Suc a]\<rparr>)"
proof -
  from try_chunk_refused [OF assms(1)] obtain e where
    "try_chunk u i a st =
       (Inl e, st\<lparr>posted := (if validatePath u i then Suc (posted st) else posted st)\<rparr>)" by blast
  then show ?thesis using assms(2) by (subst chunk_loop.simps) (simp add: Let_def)
qed

lemma delays_0: "delays a 0 = []"
  by (simp add: delays_def)

lemma delays_Suc: "delays a (Suc n) = (RETRY_DELAY_MS_BASE * Suc a) # delays (Suc a) n"
proof -
  have "[Suc a ..< Suc (a + Suc n)] = Suc a # [Suc (Suc a) ..< Suc (Suc a + n)]"
    by (subst upt_conv_Cons) simp_all
  then show ?thesis by (simp add: delays_def)
qed

lemma accepted_from_Suc:
  "\<not> accepted u i a \<Longrightarrow> a \<le> m \<Longrightarrow>
   (\<exists>k \<in> {a..m}. accepted u i k) = (\<exists>k \<in> {Suc a..m}. accepted u i k)"
  by (metis atLeastAtMost_iff Suc_leD Suc_leI le_neq_implies_less)

lemma chunk_loop_from:
  "a \<le> MAX_RETRIES_PER_CHUNK \<Longrightarrow>
   \<exists>n. a + n \<le> MAX_RETRIES_PER_CHUNK \<and>
     slept (chunk_loop u i a st) = slept st @ delays a n \<and>
     (if \<exists>k \<in> {a..MAX_RETRIES_PER_CHUNK}. accepted u i k
      then successCount (chunk_loop u i a st) = Suc (successCount st) \<and>
           failedChunks (chunk_loop u i a st) = failedChunks st \<and>
           posted (chunk_loop u i a st) = posted st + Suc n
      else a + n = MAX_RETRIES_PER_CHUNK \<and>
           successCount (chunk_loop u i a st) = successCount st \<and>
           failedChunks (chunk_loop u i a st) = failedChunks st @ [Suc i] \<and>
           posted (chunk_loop u i a st) = posted st + (if validatePath u i then Suc n else 0))"
proof (induction "MAX_RETRIES_PER_CHUNK - a" arbitrary: a st)
  case 0
  then have a: "a = MAX_RETRIES_PER_CHUNK" by simp
  show ?case
  proof (cases "accepted u i a")
    case True
    then show ?thesis using a
      by (intro exI [of _ 0]) (auto simp: chunk_loop_accepted delays_0)
  next
    case False
    then show ?thesis using a
      by (intro exI [of _ 0]) (auto simp: chunk_loop_give_up delays_0)
  qed
next
  case (Suc d)
  then have lt: "a < MAX_RETRIES_PER_CHUNK" by simp
  show ?case
  proof (cases "accepted u i a")
    case True
    then have "\<exists>k \<in> {a..MAX_RETRIES_PER_CHUNK}. accepted u i k" using lt by auto
    with True lt show ?thesis
      by (intro exI [of _ 0]) (simp add: chunk_loop_accepted delays_0)
  next
    case False
    let ?st2 = "st\<lparr>posted := (if validatePath u i then Suc (posted st) else posted st),
                   slept := slept st @ [RETRY_DELAY_MS_BASE * Suc a]\<rparr>"
    have step: "chunk_loop u i a st = chunk_loop u i (Suc a) ?st2"
      using False lt by (rule chunk_loop_retry)
    have "d = MAX_RETRIES_PER_CHUNK - Suc a" "Suc a \<le> MAX_RETRIES_PER_CHUNK"
      using Suc.hyps(2) lt by simp_all
    from Suc.hyps(1) [OF this, of ?st2] obtain n where n:
      "Suc a + n \<le> MAX_RETRIES_PER_CHUNK"
      "slept (chunk_loop u i (Suc a) ?st2) = slept ?st2 @ delays (Suc a) n"
      "if \<exists>k \<in> {Suc a..MAX_RETRIES_PER_CHUNK}. accepted u i k
       then successCount (chunk_loop u i (Suc a) ?st2) = Suc (successCount ?st2) \<and>
            failedChunks (chunk_loop u i (Suc a) ?st2) = failedChunks ?st2 \<and>
            posted (chunk_loop u i (Suc a) ?st2) = posted ?st2 + Suc n
       else Suc a + n = MAX_RETRIES_PER_CHUNK \<and>
            successCount (chunk_loop u i (Suc a) ?st2) = successCount ?st2 \<and>
            failedChunks (chunk_loop u i (Suc a) ?st2) = failedChunks ?st2 @ [Suc i] \<and>
            posted (chunk_loop u i (Suc a) ?st2) =
              posted ?st2 + (if validatePath u i then Suc n else 0)"
      by blast
    have ex: "(\<exists>k \<in> {a..MAX_RETRIES_PER_CHUNK}. accepted u i k)
               = (\<exists>k \<in> {Suc a..MAX_RETRIES_PER_CHUNK}. accepted u i k)"
      using False lt by (intro accepted_from_Suc) simp_all
    have v: "\<not> validatePath u i \<Longrightarrow> \<not> (\<exists>k \<in> {Suc a..MAX_RETRIES_PER_CHUNK}. accepted u i k)"
      by (simp add: accepted_def)
    show ?thesis
      apply (rule exI [of _ "Suc n"])
      apply (simp only: step ex)
      using n v by (auto simp: delays_Suc split: if_splits)
  qed
qed

lemma chunk_loop_from0:
  "\<exists>n. n \<le> MAX_RETRIES_PER_CHUNK \<and>
     slept (chunk_loop u i 0 st) = slept st @ delays 0 n \<and>
     (if chunk_accepted u i
      then successCount (chunk_loop u i 0 st) = Suc (successCount st) \<and>
           failedChunks (chunk_loop u i 0 st) = failedChunks st \<and>
           posted (chunk_loop u i 0 st) = posted st + Suc n
      else n = MAX_RETRIES_PER_CHUNK \<and>
           successCount (chunk_loop u i 0 st) = successCount st \<and>
           failedChunks (chunk_loop u i 0 st) = failedChunks st @ [Suc i] \<and>
           posted (chunk_loop u i 0 st) = posted st + (if validatePath u i then Suc n else 0))"
  using chunk_loop_from [OF le0, of u i st, folded chunk_accepted_def] by (simp only: add_0)

lemma chunk_loop_counts:
  "successCount (chunk_loop u i 0 st) = successCount st + (if chunk_accepted u i then 1 else 0)"
  "failedChunks (chunk_loop u i 0 st) = failedChunks st @ (if chunk_accepted u i then [] else [Suc i])"
  using chunk_loop_from [of 0 u i st] by (auto simp: chunk_accepted_def split: if_splits)

lemma chunks_loop_step:
  "i < totalChunks u \<Longrightarrow> chunks_loop u i st = chunks_loop u (Suc i) (chunk_loop u i 0 st)"
  by (subst chunks_loop.simps) simp

lemma chunks_loop_done: "\<not> i < totalChunks u \<Longrightarrow> chunks_loop u i st = st"
  by (subst chunks_loop.simps) simp

lemma chunks_loop_closed:
  "i \<le> totalChunks u \<Longrightarrow>
   successCount (chunks_loop u i st) =
     successCount st + length (filter (chunk_accepted u) [i..<totalChunks u]) \<and>
   failedChunks (chunks_loop u i st) =
     failedChunks st @ map Suc (filter (\<lambda>j. \<not> chunk_accepted u j) [i..<totalChunks u])"
proof (induction "totalChunks u - i" arbitrary: i st)
  case 0
  then show ?case by (simp add: chunks_loop_done)
next
  case (Suc d)
  then have lt: "i < totalChunks u" by simp
  have "d = totalChunks u - Suc i" "Suc i \<le> totalChunks u" using Suc.hyps(2) by simp_all
  from Suc.hyps(1) [OF this, of "chunk_loop u i 0 st"] show ?case
    using lt by (simp add: chunks_loop_step chunk_loop_counts upt_conv_Cons)
qed

lemma reupload_closed:
  assumes "data_exists u" "tx_available u"
  shows "successCount (snd (reuploadChunks u)) = length (filter (chunk_accepted u) [0..<totalChunks u])"
    and "failedChunks (snd (reuploadChunks u)) =
           map Suc (filter (\<lambda>j. \<not> chunk_accepted u j) [0..<totalChunks u])"
    and "fst (reuploadChunks u) =
           (if successCount (snd (reuploadChunks u)) = totalChunks u then Inr () else Inl FailedToUploadAll)"
  using assms chunks_loop_closed [of 0 u "\<lparr>successCount = 0, failedChunks = [], slept = [], posted = 0\<rparr>"]
  by (simp_all add: reuploadChunks_def Let_def)

lemma filter_all_length:
  "length (filter P [0..<n]) = n \<longleftrightarrow> (\<forall>i<n. P i)"
proof -
  have "length (filter P [0..<n]) = length [0..<n] \<longleftrightarrow> (\<forall>x\<in>set [0..<n]. P x)"
    by (metis filter_True length_filter_le filter_id_conv length_filter_less not_less_iff_gr_or_eq)
  then show ?thesis by auto
qed

lemma chunk_accepted_u4: "chunk_accepted u4 i \<longleftrightarrow> i \<noteq> 2"
  by (simp add: chunk_accepted_def accepted_def u4_def resp_status_def MAX_RETRIES_PER_CHUNK_def)
    blast

lemma delays_sorted: "sorted_wrt (<) (delays a n)"
proof -
  have "sorted_wrt (<) [Suc a ..< Suc (a + n)]" by (rule sorted_wrt_upt)
  then show ?thesis
    unfolding delays_def by (simp add: sorted_wrt_map RETRY_DELAY_MS_BASE_def)
qed

lemma chunk_loop_invalid:
  assumes "\<not> validatePath u i"
  shows "chunk_loop u i 0 st =
     st\<lparr>slept := slept st @ [750, 1500, 2250, 3000, 3750],
        failedChunks := failedChunks st @ [i + 1]\<rparr>"
proof -
  have na: "\<not> accepted u i k" for k using assms by (simp add: accepted_def)
  show ?thesis
    using assms
    by (simp add: chunk_loop_retry [OF na] chunk_loop_give_up [OF na]
        MAX_RETRIES_PER_CHUNK_def RETRY_DELAY_MS_BASE_def)
qed

text \<open>
  Claim C5, as amended. Provided the data file and the transaction are there,
  \<open>reuploadChunks\<close> succeeds if and only if every chunk is accepted, a chunk being accepted
  when one of its tries is answered with status 200 or 208; otherwise it throws, and the
  list it reports holds, for every chunk that failed, its index plus one, in ascending
  order. For four chunks of which only the one at index 2 fails, that list is \<open>[3]\<close> and
  three chunks count as uploaded.
\<close>

theorem upload_all:
  assumes "data_exists u" and "tx_available u"
  shows "(fst (reuploadChunks u) = Inr () \<longleftrightarrow> (\<forall>i<totalChunks u. chunk_accepted u i)) \<and>
         (fst (reuploadChunks u) \<noteq> Inr () \<longrightarrow> fst (reuploadChunks u) = Inl FailedToUploadAll) \<and>
         failedChunks (snd (reuploadChunks u)) =
           map Suc (filter (\<lambda>i. \<not> chunk_accepted u i) [0..<totalChunks u]) \<and>
         successCount (snd (reuploadChunks u)) =
           length (filter (chunk_accepted u) [0..<totalChunks u]) \<and>
         (totalChunks u = 4 \<and> chunk_accepted u 0 \<and> chunk_accepted u 1 \<and> \<not> chunk_accepted u 2
            \<and> chunk_accepted u 3 \<longrightarrow>
          failedChunks (snd (reuploadChunks u)) = [3] \<and> successCount (snd (reuploadChunks u)) = 3)"
proof -
  note c = reupload_closed [OF assms]
  have 4: "[0..<4] = [0, Suc 0, 2, 3::nat]" by (simp add: upt_rec)
  have a: "fst (reuploadChunks u) = Inr () \<longleftrightarrow> (\<forall>i<totalChunks u. chunk_accepted u i)"
    by (simp add: c(3) c(1) filter_all_length)
  have b: "fst (reuploadChunks u) \<noteq> Inr () \<longrightarrow> fst (reuploadChunks u) = Inl FailedToUploadAll"
    by (simp add: c(3))
  have d: "failedChunks (snd (reuploadChunks u)) = [3] \<and> successCount (snd (reuploadChunks u)) = 3"
    if "totalChunks u = 4" "chunk_accepted u 0" "chunk_accepted u 1" "\<not> chunk_accepted u 2"
       "chunk_accepted u 3"
    using that by (simp add: c(1) c(2) 4)
  from a b c(2) c(1) d show ?thesis by blast
qed

theorem upload_all_witness:
  "fst (reuploadChunks u4) = Inl FailedToUploadAll \<and> failedChunks (snd (reuploadChunks u4)) = [3]
   \<and> successCount (snd (reuploadChunks u4)) = 3"
proof -
  have e: "data_exists u4" "tx_available u4" by (simp_all add: u4_def)
  have t: "totalChunks u4 = 4" by (simp add: u4_def)
  have n: "\<not> (\<forall>i<totalChunks u4. chunk_accepted u4 i)"
    by (simp add: t chunk_accepted_u4)
  have s: "chunk_accepted u4 0 \<and> chunk_accepted u4 1 \<and> \<not> chunk_accepted u4 2 \<and> chunk_accepted u4 3"
    by (simp add: chunk_accepted_u4)
  from upload_all [OF e] n have "fst (reuploadChunks u4) = Inl FailedToUploadAll" by blast
  moreover from upload_all [OF e] t s
  have "failedChunks (snd (reuploadChunks u4)) = [3] \<and> successCount (snd (reuploadChunks u4)) = 3"
    by blast
  ultimately show ?thesis by simp
qed

text \<open>
  Claim C5 as stated fails: for four chunks of which the one at index 2 is refused at every
  try, the list reported is \<open>[3]\<close>, not \<open>[2]\<close>.
\<close>

theorem failed_list_zero_based_counterexample:
  "failedChunks (snd (reuploadChunks u4)) = [3] \<and> failedChunks (snd (reuploadChunks u4)) \<noteq> [2]"
proof -
  have e: "data_exists u4" "tx_available u4" by (simp_all add: u4_def)
  have t: "totalChunks u4 = 4" by (simp add: u4_def)
  have 4: "[0..<4] = [0, Suc 0, 2, 3::nat]" by (simp add: upt_rec)
  have "failedChunks (snd (reuploadChunks u4)) = [3]"
    by (simp add: reupload_closed(2) [OF e] t 4 chunk_accepted_u4)
  then show ?thesis by simp
qed

text \<open>
  Claim C6, as amended. A chunk whose proof does not validate goes through the same
  \<open>catch\<close> as a failed POST: it is retried five times, after delays of 750, 1500, 2250,
  3000 and 3750 ms, and is then recorded as failed; no POST is made for it.
\<close>

theorem validation_failure_retried:
  "\<not> validatePath u i \<longrightarrow>
   try_chunk u i attempt st = (Inl (UnableToValidate i), st) \<and>
   chunk_loop u i 0 st =
     st\<lparr>slept := slept st @ [750, 1500, 2250, 3000, 3750],
        failedChunks := failedChunks st @ [i + 1]\<rparr> \<and>
   posted (chunk_loop u i 0 st) = posted st \<and>
   successCount (chunk_loop u i 0 st) = successCount st"
proof
  assume v: "\<not> validatePath u i"
  have thrown: "try_chunk u i attempt st = (Inl (UnableToValidate i), st)"
    using v by (simp add: try_chunk_def)
  have looped: "chunk_loop u i 0 st =
     st\<lparr>slept := slept st @ [750, 1500, 2250, 3000, 3750],
        failedChunks := failedChunks st @ [i + 1]\<rparr>"
    using v by (rule chunk_loop_invalid)
  then have "posted (chunk_loop u i 0 st) = posted st"
    and "successCount (chunk_loop u i 0 st) = successCount st"
    by simp_all
  with thrown looped
  show "try_chunk u i attempt st = (Inl (UnableToValidate i), st) \<and>
   chunk_loop u i 0 st =
     st\<lparr>slept := slept st @ [750, 1500, 2250, 3000, 3750],
        failedChunks := failedChunks st @ [i + 1]\<rparr> \<and>
   posted (chunk_loop u i 0 st) = posted st \<and>
   successCount (chunk_loop u i 0 st) = successCount st"
    by simp
qed

theorem validation_failure_retried_witness:
  "\<not> validatePath u_invalid 0 \<and>
   chunk_loop u_invalid 0 0 st0 =
     \<lparr>successCount = 0, failedChunks = [1], slept = [750, 1500, 2250, 3000, 3750], posted = 0\<rparr>"
proof -
  have v: "\<not> validatePath u_invalid 0" by (simp add: u_invalid_def)
  from validation_failure_retried [of u_invalid 0 0 st0] v show ?thesis by (simp add: st0_def)
qed

text \<open>
  Claim C6 as stated fails: for a single chunk whose proof does not validate, the run
  sleeps five times before it records the chunk as failed.
\<close>

theorem validation_failure_counterexample:
  "\<not> validatePath u_invalid 0 \<and>
   reuploadChunks u_invalid =
     (Inl FailedToUploadAll,
      \<lparr>successCount = 0, failedChunks = [1], slept = [750, 1500, 2250, 3000, 3750], posted = 0\<rparr>)"
proof -
  have v: "\<not> validatePath u_invalid 0" by (simp add: u_invalid_def)
  have t: "totalChunks u_invalid = 1" "data_exists u_invalid" "tx_available u_invalid"
    by (simp_all add: u_invalid_def)
  show ?thesis
    by (simp add: reuploadChunks_def Let_def t v chunks_loop_step chunks_loop_done
        chunk_loop_invalid [OF v])
qed

text \<open>
  Claim C7. For every chunk, the number \<open>n\<close> of retries is at most
  \<open>MAX_RETRIES_PER_CHUNK\<close>; the delay slept before retry \<open>k\<close> is \<open>k * RETRY_DELAY_MS_BASE\<close>, so
  the delays increase strictly; at most \<open>n + 1\<close> POSTs are made; a chunk that is not
  accepted has used all the retries when it is recorded as failed; and the loop over the
  chunks goes on with the next index whatever the outcome, so that at the end every chunk
  is counted either as uploaded or as failed.
\<close>

theorem retry_budget:
  "\<exists>n. n \<le> MAX_RETRIES_PER_CHUNK \<and>
     slept (chunk_loop u i 0 st) = slept st @ map (\<lambda>k. k * RETRY_DELAY_MS_BASE) [1..<Suc n] \<and>
     sorted_wrt (<) (map (\<lambda>k. k * RETRY_DELAY_MS_BASE) [1..<Suc n]) \<and>
     posted (chunk_loop u i 0 st) \<le> posted st + Suc n \<and>
     (if chunk_accepted u i
      then failedChunks (chunk_loop u i 0 st) = failedChunks st \<and>
           successCount (chunk_loop u i 0 st) = successCount st + 1
      else n = MAX_RETRIES_PER_CHUNK \<and>
           failedChunks (chunk_loop u i 0 st) = failedChunks st @ [i + 1] \<and>
           successCount (chunk_loop u i 0 st) = successCount st) \<and>
     (i < totalChunks u \<longrightarrow>
        chunks_loop u i st = chunks_loop u (i + 1) (chunk_loop u i 0 st)) \<and>
     successCount (chunks_loop u 0 st) + length (failedChunks (chunks_loop u 0 st)) =
        successCount st + length (failedChunks st) + totalChunks u"
proof -
  from chunk_loop_from0 [of u i st] obtain n where n:
    "n \<le> MAX_RETRIES_PER_CHUNK"
    "slept (chunk_loop u i 0 st) = slept st @ delays 0 n"
    "if chunk_accepted u i
      then successCount (chunk_loop u i 0 st) = Suc (successCount st) \<and>
           failedChunks (chunk_loop u i 0 st) = failedChunks st \<and>
           posted (chunk_loop u i 0 st) = posted st + Suc n
      else n = MAX_RETRIES_PER_CHUNK \<and>
           successCount (chunk_loop u i 0 st) = successCount st \<and>
           failedChunks (chunk_loop u i 0 st) = failedChunks st @ [Suc i] \<and>
           posted (chunk_loop u i 0 st) = posted st + (if validatePath u i then Suc n else 0)"
    by blast
  have d: "delays 0 n = map (\<lambda>k. k * RETRY_DELAY_MS_BASE) [1..<Suc n]"
    by (simp add: delays_def mult.commute)
  have s: "sorted_wrt (<) (map (\<lambda>k. k * RETRY_DELAY_MS_BASE) [1..<Suc n])"
    using delays_sorted [of 0 n] by (simp only: d)
  have p: "posted (chunk_loop u i 0 st) \<le> posted st + Suc n"
    using n(3) by (simp split: if_splits)
  have c: "if chunk_accepted u i
      then failedChunks (chunk_loop u i 0 st) = failedChunks st \<and>
           successCount (chunk_loop u i 0 st) = successCount st + 1
      else n = MAX_RETRIES_PER_CHUNK \<and>
           failedChunks (chunk_loop u i 0 st) = failedChunks st @ [i + 1] \<and>
           successCount (chunk_loop u i 0 st) = successCount st"
    using n(3) by (simp split: if_splits)
  have st: "i < totalChunks u \<longrightarrow>
        chunks_loop u i st = chunks_loop u (i + 1) (chunk_loop u i 0 st)"
    by (simp add: chunks_loop_step)
  have "length (filter (chunk_accepted u) [0..<totalChunks u])
        + length (filter (\<lambda>j. \<not> chunk_accepted u j) [0..<totalChunks u]) = totalChunks u"
    using sum_length_filter_compl [of "chunk_accepted u" "[0..<totalChunks u]"] by simp
  then have t: "successCount (chunks_loop u 0 st) + length (failedChunks (chunks_loop u 0 st)) =
        successCount st + length (failedChunks st) + totalChunks u"
    using chunks_loop_closed [of 0 u st] by simp
  from n(1) n(2) d s p c st t show ?thesis
    by (intro exI [of _ n]) (simp only: simp_thms)
qed

theorem retry_budget_witness:
  "\<exists>n. n \<le> MAX_RETRIES_PER_CHUNK \<and>
     slept (chunk_loop u4 2 0 st0) = map (\<lambda>k. k * RETRY_DELAY_MS_BASE) [1..<Suc n] \<and>
     n = MAX_RETRIES_PER_CHUNK \<and>
     failedChunks (chunk_loop u4 2 0 st0) = [3] \<and>
     chunks_loop u4 2 st0 = chunks_loop u4 3 (chunk_loop u4 2 0 st0)"
proof -
  have a: "\<not> chunk_accepted u4 2" by (simp add: chunk_accepted_u4)
  have t: "2 < totalChunks u4" by (simp add: u4_def)
  from retry_budget [of u4 2 st0] a t show ?thesis by (auto simp: st0_def)
qed

end
